theory Spec2Isabelle
  imports Complex_Main "HOL-Library.Stream"
begin

section \<open>Domain model (main.py, lines 8-38)\<close>

text \<open>
  The four dataclasses of the program. Python compares dataclass instances field by
  field (the generated \<open>__eq__\<close>), which is HOL's equality on records. Floating-point
  scores are modelled by exact rationals: 0.5 is \<open>1/2\<close>, 0.4 is \<open>2/5\<close>, 0.25 is \<open>1/4\<close>,
  and so on; what is verified is which rule fires and with which constant. The fields keep
  their names, except that \<open>Activity.name\<close> and \<open>Room.name\<close> are \<open>act_name\<close> and
  \<open>room_name\<close>, \<open>Activity.section\<close> is \<open>act_section\<close> (\<open>None\<close> when the activity has no
  section), and the cache \<open>Schedule._fitness\<close> is \<open>fitness_cache\<close>.
\<close>

record Activity =
  act_name :: string
  expected_enrollment :: int
  preferred_facilitators :: "string set"
  other_facilitators :: "string set"
  act_section :: "string option"

record Room =
  room_name :: string
  capacity :: int
  building :: string

record TimeSlot =
  hour :: int
  minute :: int

record ScheduleItem =
  activity :: Activity
  room :: Room
  time_slot :: TimeSlot
  facilitator :: string

datatype py_error = IndexError | KeyError | ValueError | ZeroDivisionError

subsection \<open>\<open>TimeSlot.__str__\<close>: the format \<open>{hour:02d}:{minute:02d}\<close>\<close>

fun dec_digits :: "nat \<Rightarrow> string" where
  "dec_digits n =
     (if n < 10 then [''0123456789'' ! n]
      else dec_digits (n div 10) @ [''0123456789'' ! (n mod 10)])"

declare dec_digits.simps [simp del]

definition fmt_02d :: "int \<Rightarrow> string" where
  "fmt_02d i =
     (if i < 0 then CHR ''-'' # dec_digits (nat (- i))
      else if i < 10 then CHR ''0'' # dec_digits (nat i)
      else dec_digits (nat i))"

definition str_TimeSlot :: "TimeSlot \<Rightarrow> string" where
  "str_TimeSlot t = fmt_02d (hour t) @ '':'' @ fmt_02d (minute t)"

section \<open>The fitness function (\<open>Schedule.calculate_fitness\<close>, lines 51-138)\<close>

subsection \<open>First loop: the two dictionaries (lines 57-62)\<close>

definition tally ::
  "ScheduleItem \<Rightarrow> (string \<rightharpoonup> int) \<times> (string \<rightharpoonup> ScheduleItem list)
     \<Rightarrow> (string \<rightharpoonup> int) \<times> (string \<rightharpoonup> ScheduleItem list)" where
  "tally item tabs =
     (let facilitator_loads = fst tabs;
          time_slot_assignments = snd tabs;
          slot_key = str_TimeSlot (time_slot item)
      in (facilitator_loads(facilitator item \<mapsto>
            (case facilitator_loads (facilitator item) of None \<Rightarrow> 0 | Some c \<Rightarrow> c) + 1),
          time_slot_assignments(slot_key \<mapsto>
            (case time_slot_assignments slot_key of None \<Rightarrow> [] | Some xs \<Rightarrow> xs) @ [item])))"

definition build_tables ::
  "ScheduleItem list \<Rightarrow> (string \<rightharpoonup> int) \<times> (string \<rightharpoonup> ScheduleItem list)" where
  "build_tables items = fold tally items (Map.empty, Map.empty)"

subsection \<open>The per-item rules, each a step on the running \<open>fitness\<close>\<close>

text \<open>Rule 1, room conflicts (lines 67-71); \<open>slot_items\<close> is
  \<open>time_slot_assignments[slot_key]\<close>.\<close>

definition room_conflicts :: "ScheduleItem list \<Rightarrow> ScheduleItem \<Rightarrow> rat \<Rightarrow> rat" where
  "room_conflicts slot_items item fitness =
     fold (\<lambda>other_item f.
             if other_item \<noteq> item \<and> room other_item = room item then f - 1/2 else f)
          slot_items fitness"

text \<open>Rule 2, room size (lines 73-81).\<close>

definition room_size_check :: "ScheduleItem \<Rightarrow> rat \<Rightarrow> rat" where
  "room_size_check item fitness =
     (if capacity (room item) < expected_enrollment (activity item) then fitness - 1/2
      else if capacity (room item) > 6 * expected_enrollment (activity item) then fitness - 2/5
      else if capacity (room item) > 3 * expected_enrollment (activity item) then fitness - 1/5
      else fitness + 3/10)"

text \<open>Rule 3, facilitator preference (lines 83-89).\<close>

definition facilitator_preference :: "ScheduleItem \<Rightarrow> rat \<Rightarrow> rat" where
  "facilitator_preference item fitness =
     (if facilitator item \<in> preferred_facilitators (activity item) then fitness + 1/2
      else if facilitator item \<in> other_facilitators (activity item) then fitness + 1/5
      else fitness - 1/10)"

text \<open>Rule 4, facilitator load inside the time slot (lines 91-97).\<close>

definition slot_load :: "ScheduleItem list \<Rightarrow> ScheduleItem \<Rightarrow> rat \<Rightarrow> rat" where
  "slot_load slot_items item fitness =
     (let facilitator_count_in_slot =
            int (length (filter (\<lambda>x. facilitator x = facilitator item) slot_items))
      in if facilitator_count_in_slot = 1 then fitness + 1/5
         else if facilitator_count_in_slot > 1 then fitness - 1/5
         else fitness)"

text \<open>Rule 5, facilitator total load (lines 99-105); \<open>load\<close> is
  \<open>facilitator_loads[item.facilitator]\<close>.\<close>

definition total_load :: "int \<Rightarrow> ScheduleItem \<Rightarrow> rat \<Rightarrow> rat" where
  "total_load load item fitness =
     (if load > 4 then fitness - 1/2
      else if load = 3 \<and> facilitator item = ''Dr. Tyler'' then fitness - 2/5
      else if load < 3 \<and> facilitator item \<noteq> ''Dr. Tyler'' then fitness - 2/5
      else fitness)"

text \<open>Rule 6, paired sections (lines 108-118). \<open>next(..., None)\<close> is \<open>find\<close>; a
  \<open>ScheduleItem\<close> is always truthy, so \<open>if other_section\<close> tests for \<open>None\<close> only.\<close>

definition paired_section :: "ScheduleItem list \<Rightarrow> ScheduleItem \<Rightarrow> rat \<Rightarrow> rat" where
  "paired_section items item fitness =
     (if act_name (activity item) \<in> set [''SLA 101'', ''SLA 191''] then
        (case find (\<lambda>x. act_name (activity x) = act_name (activity item)
                        \<and> act_section (activity x) \<noteq> act_section (activity item)) items of
           None \<Rightarrow> fitness
         | Some other_section \<Rightarrow>
             (let time_diff = \<bar>hour (time_slot other_section) - hour (time_slot item)\<bar>
              in if time_diff > 4 then fitness + 1/2
                 else if time_diff = 0 then fitness - 1/2
                 else fitness))
      else fitness)"

text \<open>Rule 7, consecutive slots (lines 120-134).\<close>

definition consecutive_step :: "ScheduleItem \<Rightarrow> ScheduleItem \<Rightarrow> rat \<Rightarrow> rat" where
  "consecutive_step item other_item fitness =
     (if act_name (activity other_item) \<in> set [''SLA 101'', ''SLA 191''] \<and> other_item \<noteq> item then
        (let time_diff = \<bar>hour (time_slot other_item) - hour (time_slot item)\<bar>
         in if time_diff = 1 then
              (if (building (room item) \<in> set [''Roman'', ''Beach''])
                    \<noteq> (building (room other_item) \<in> set [''Roman'', ''Beach''])
               then fitness + 1/2 - 2/5 else fitness + 1/2)
            else if time_diff = 2 then fitness + 1/4
            else if time_diff = 0 then fitness - 1/4
            else fitness)
      else fitness)"

definition consecutive_slots :: "ScheduleItem list \<Rightarrow> ScheduleItem \<Rightarrow> rat \<Rightarrow> rat" where
  "consecutive_slots items item fitness =
     (if act_name (activity item) \<in> set [''SLA 101'', ''SLA 191'']
      then fold (consecutive_step item) items fitness
      else fitness)"

subsection \<open>Second loop and the total (lines 64-138)\<close>

text \<open>A dictionary subscript on a missing key raises \<open>KeyError\<close>; the model keeps that
  branch and \<open>calculate_fitness_total\<close> below shows it is never taken.\<close>

definition item_fitness ::
  "(string \<rightharpoonup> int) \<Rightarrow> (string \<rightharpoonup> ScheduleItem list) \<Rightarrow> ScheduleItem list \<Rightarrow> ScheduleItem
     \<Rightarrow> py_error + rat" where
  "item_fitness facilitator_loads time_slot_assignments items item =
     (case time_slot_assignments (str_TimeSlot (time_slot item)) of
        None \<Rightarrow> Inl KeyError
      | Some slot_items \<Rightarrow>
          (case facilitator_loads (facilitator item) of
             None \<Rightarrow> Inl KeyError
           | Some load \<Rightarrow>
               Inr (consecutive_slots items item
                     (paired_section items item
                       (total_load load item
                         (slot_load slot_items item
                           (facilitator_preference item
                             (room_size_check item
                               (room_conflicts slot_items item 0)))))))))"

fun score_loop ::
  "(string \<rightharpoonup> int) \<Rightarrow> (string \<rightharpoonup> ScheduleItem list) \<Rightarrow> ScheduleItem list
     \<Rightarrow> ScheduleItem list \<Rightarrow> rat \<Rightarrow> py_error + rat" where
  "score_loop L T items [] total_fitness = Inr total_fitness"
| "score_loop L T items (item # rest) total_fitness =
     (case item_fitness L T items item of
        Inl e \<Rightarrow> Inl e
      | Inr fitness \<Rightarrow> score_loop L T items rest (total_fitness + fitness))"

definition calculate_fitness :: "ScheduleItem list \<Rightarrow> py_error + rat" where
  "calculate_fitness items =
     score_loop (fst (build_tables items)) (snd (build_tables items)) items items 0"

section \<open>The dataset (\<open>create_actual_data\<close>, lines 236-303)\<close>

definition mk_activity ::
  "string \<Rightarrow> int \<Rightarrow> string set \<Rightarrow> string set \<Rightarrow> string option \<Rightarrow> Activity" where
  "mk_activity n e p oth s =
     \<lparr>act_name = n, expected_enrollment = e, preferred_facilitators = p,
      other_facilitators = oth, act_section = s\<rparr>"

definition mk_room :: "string \<Rightarrow> int \<Rightarrow> string \<Rightarrow> Room" where
  "mk_room n c b = \<lparr>room_name = n, capacity = c, building = b\<rparr>"

definition mk_time_slot :: "int \<Rightarrow> int \<Rightarrow> TimeSlot" where
  "mk_time_slot h m = \<lparr>hour = h, minute = m\<rparr>"

definition data_facilitators :: "string list" where
  "data_facilitators =
     [''Lock'', ''Glen'', ''Banks'', ''Richards'', ''Shaw'', ''Singer'',
      ''Uther'', ''Tyler'', ''Numen'', ''Zeldin'']"

definition data_activities :: "Activity list" where
  "data_activities =
     [mk_activity ''SLA100'' 50 {''Glen'', ''Lock'', ''Banks'', ''Zeldin''}
        {''Numen'', ''Richards''} (Some ''A''),
      mk_activity ''SLA100'' 50 {''Glen'', ''Lock'', ''Banks'', ''Zeldin''}
        {''Numen'', ''Richards''} (Some ''B''),
      mk_activity ''SLA191'' 50 {''Glen'', ''Lock'', ''Banks'', ''Zeldin''}
        {''Numen'', ''Richards''} (Some ''A''),
      mk_activity ''SLA191'' 50 {''Glen'', ''Lock'', ''Banks'', ''Zeldin''}
        {''Numen'', ''Richards''} (Some ''B''),
      mk_activity ''SLA201'' 50 {''Glen'', ''Banks'', ''Zeldin'', ''Shaw''}
        {''Numen'', ''Richards'', ''Singer''} None,
      mk_activity ''SLA291'' 50 {''Lock'', ''Banks'', ''Zeldin'', ''Singer''}
        {''Numen'', ''Richards'', ''Shaw'', ''Tyler''} None,
      mk_activity ''SLA303'' 60 {''Glen'', ''Zeldin'', ''Banks''}
        {''Numen'', ''Singer'', ''Shaw''} None,
      mk_activity ''SLA304'' 25 {''Glen'', ''Banks'', ''Tyler''}
        {''Numen'', ''Singer'', ''Shaw'', ''Richards'', ''Uther'', ''Zeldin''} None,
      mk_activity ''SLA394'' 20 {''Tyler'', ''Singer''}
        {''Richards'', ''Zeldin''} None,
      mk_activity ''SLA449'' 60 {''Tyler'', ''Singer'', ''Shaw''}
        {''Zeldin'', ''Uther''} None,
      mk_activity ''SLA451'' 100 {''Tyler'', ''Singer'', ''Shaw''}
        {''Zeldin'', ''Uther'', ''Richards'', ''Banks''} None]"

definition data_rooms :: "Room list" where
  "data_rooms =
     [mk_room ''Slater 003'' 45 ''Slater'',
      mk_room ''Roman 216'' 30 ''Roman'',
      mk_room ''Loft 206'' 75 ''Loft'',
      mk_room ''Roman 201'' 50 ''Roman'',
      mk_room ''Loft 310'' 108 ''Loft'',
      mk_room ''Beach 201'' 60 ''Beach'',
      mk_room ''Beach 301'' 75 ''Beach'',
      mk_room ''Logos 325'' 450 ''Logos'',
      mk_room ''Frank 119'' 60 ''Frank'']"

definition data_time_slots :: "TimeSlot list" where
  "data_time_slots =
     [mk_time_slot 10 0, mk_time_slot 11 0, mk_time_slot 12 0,
      mk_time_slot 13 0, mk_time_slot 14 0, mk_time_slot 15 0]"

definition create_actual_data ::
  "Activity list \<times> Room list \<times> TimeSlot list \<times> string list" where
  "create_actual_data = (data_activities, data_rooms, data_time_slots, data_facilitators)"

section \<open>The library's random source\<close>

text \<open>
  Python's \<open>random\<close> module is not part of the program. Its generator is modelled as a
  stream of raw draws that each library call consumes from the front, so a theorem
  quantified over the stream holds for every outcome of the random choices. The calls
  keep the library's documented failures: \<open>choice\<close> of an empty sequence raises
  \<open>IndexError\<close>, \<open>randint\<close> of an empty range and \<open>sample\<close> of more elements than the
  population holds raise \<open>ValueError\<close>. \<open>random()\<close> returns a multiple of \<open>2^-53\<close> in
  \<open>[0, 1)\<close>. \<open>sample\<close> returns the elements at \<open>k\<close> distinct positions; the model picks
  them as CPython's pool loop does for a small population (for a large one CPython
  redraws a position it has already taken, with the same possible results).
\<close>

type_synonym rng = "nat stream"

definition random_choice :: "'a list \<Rightarrow> rng \<Rightarrow> py_error + ('a \<times> rng)" where
  "random_choice xs g =
     (if xs = [] then Inl IndexError else Inr (xs ! (shd g mod length xs), stl g))"

definition random_randint :: "int \<Rightarrow> int \<Rightarrow> rng \<Rightarrow> py_error + (int \<times> rng)" where
  "random_randint a b g =
     (if b < a then Inl ValueError
      else Inr (a + int (shd g mod nat (b - a + 1)), stl g))"

definition random_random :: "rng \<Rightarrow> rat \<times> rng" where
  "random_random g = (of_nat (shd g mod 2 ^ 53) / 2 ^ 53, stl g)"

fun sample_pool :: "'a list \<Rightarrow> nat \<Rightarrow> rng \<Rightarrow> 'a list \<times> rng" where
  "sample_pool pool 0 g = ([], g)"
| "sample_pool pool (Suc k) g =
     (let j = shd g mod length pool;
          picked = sample_pool (butlast (pool[j := last pool])) k (stl g)
      in (pool ! j # fst picked, snd picked))"

definition random_sample :: "'a list \<Rightarrow> nat \<Rightarrow> rng \<Rightarrow> py_error + ('a list \<times> rng)" where
  "random_sample population k g =
     (if length population < k then Inl ValueError else Inr (sample_pool population k g))"

section \<open>\<open>Schedule\<close> (lines 41-49)\<close>

record Schedule =
  items :: "ScheduleItem list"
  fitness_cache :: "rat option"

definition new_Schedule :: "ScheduleItem list \<Rightarrow> Schedule" where
  "new_Schedule its = \<lparr>items = its, fitness_cache = None\<rparr>"

text \<open>\<open>get_fitness\<close> returns the score and the schedule with its cache \<open>_fitness\<close> filled.\<close>

definition get_fitness :: "Schedule \<Rightarrow> py_error + (rat \<times> Schedule)" where
  "get_fitness s =
     (case fitness_cache s of
        None \<Rightarrow>
          (case calculate_fitness (items s) of
             Inl e \<Rightarrow> Inl e
           | Inr f \<Rightarrow> Inr (f, s\<lparr>fitness_cache := Some f\<rparr>))
      | Some f \<Rightarrow> Inr (f, s))"

section \<open>\<open>GeneticAlgorithm\<close> (lines 141-233)\<close>

record GeneticAlgorithm =
  activities :: "Activity list"
  rooms :: "Room list"
  time_slots :: "TimeSlot list"
  facilitators :: "string list"
  population_size :: int
  mutation_rate :: rat
  population :: "Schedule list"

subsection \<open>\<open>initialize_population\<close> and the constructor (lines 142-169)\<close>

fun random_schedule_items ::
  "GeneticAlgorithm \<Rightarrow> Activity list \<Rightarrow> rng \<Rightarrow> py_error + (ScheduleItem list \<times> rng)" where
  "random_schedule_items ga [] g = Inr ([], g)"
| "random_schedule_items ga (a # rest) g =
     (case random_choice (rooms ga) g of
        Inl e \<Rightarrow> Inl e
      | Inr (r, g1) \<Rightarrow>
          (case random_choice (time_slots ga) g1 of
             Inl e \<Rightarrow> Inl e
           | Inr (t, g2) \<Rightarrow>
               (case random_choice (facilitators ga) g2 of
                  Inl e \<Rightarrow> Inl e
                | Inr (f, g3) \<Rightarrow>
                    (case random_schedule_items ga rest g3 of
                       Inl e \<Rightarrow> Inl e
                     | Inr (schedule_items, g4) \<Rightarrow>
                         Inr (\<lparr>activity = a, room = r, time_slot = t, facilitator = f\<rparr>
                                # schedule_items, g4)))))"

fun population_loop ::
  "GeneticAlgorithm \<Rightarrow> nat \<Rightarrow> rng \<Rightarrow> py_error + (Schedule list \<times> rng)" where
  "population_loop ga 0 g = Inr ([], g)"
| "population_loop ga (Suc n) g =
     (case random_schedule_items ga (activities ga) g of
        Inl e \<Rightarrow> Inl e
      | Inr (schedule_items, g1) \<Rightarrow>
          (case population_loop ga n g1 of
             Inl e \<Rightarrow> Inl e
           | Inr (rest, g2) \<Rightarrow> Inr (new_Schedule schedule_items # rest, g2)))"

definition initialize_population ::
  "GeneticAlgorithm \<Rightarrow> rng \<Rightarrow> py_error + (Schedule list \<times> rng)" where
  "initialize_population ga g = population_loop ga (nat (population_size ga)) g"

definition GeneticAlgorithm_init ::
  "Activity list \<Rightarrow> Room list \<Rightarrow> TimeSlot list \<Rightarrow> string list \<Rightarrow> int \<Rightarrow> rat \<Rightarrow> rng
     \<Rightarrow> py_error + (GeneticAlgorithm \<times> rng)" where
  "GeneticAlgorithm_init acts rms slots facs psize mrate g =
     (let self = \<lparr>activities = acts, rooms = rms, time_slots = slots, facilitators = facs,
                  population_size = psize, mutation_rate = mrate, population = []\<rparr>
      in case initialize_population self g of
           Inl e \<Rightarrow> Inl e
         | Inr (pop, g') \<Rightarrow> Inr (self\<lparr>population := pop\<rparr>, g'))"

subsection \<open>\<open>select_parent\<close> (lines 171-175)\<close>

text \<open>\<open>max(tournament, key=...)\<close> keeps the first element whose key is greatest and
  raises \<open>ValueError\<close> on an empty sequence. The winner is returned with its cache filled;
  when \<open>evolve\<close> selects, line 208 has filled the cache of every schedule of the
  population already, so the population is passed on as it is.\<close>

fun max_by_fitness_loop ::
  "Schedule list \<Rightarrow> rat \<Rightarrow> Schedule \<Rightarrow> py_error + Schedule" where
  "max_by_fitness_loop [] best_f best = Inr best"
| "max_by_fitness_loop (s # rest) best_f best =
     (case get_fitness s of
        Inl e \<Rightarrow> Inl e
      | Inr (f, s') \<Rightarrow>
          (if f > best_f then max_by_fitness_loop rest f s'
           else max_by_fitness_loop rest best_f best))"

definition max_by_fitness :: "Schedule list \<Rightarrow> py_error + Schedule" where
  "max_by_fitness ss =
     (case ss of
        [] \<Rightarrow> Inl ValueError
      | s # rest \<Rightarrow>
          (case get_fitness s of
             Inl e \<Rightarrow> Inl e
           | Inr (f, s') \<Rightarrow> max_by_fitness_loop rest f s'))"

definition select_parent :: "Schedule list \<Rightarrow> rng \<Rightarrow> py_error + (Schedule \<times> rng)" where
  "select_parent pop g =
     (let tournament_size = 5
      in case random_sample pop tournament_size g of
           Inl e \<Rightarrow> Inl e
         | Inr (tournament, g') \<Rightarrow>
             (case max_by_fitness tournament of
                Inl e \<Rightarrow> Inl e
              | Inr best \<Rightarrow> Inr (best, g')))"

subsection \<open>\<open>crossover\<close> (lines 177-182)\<close>

definition crossover ::
  "GeneticAlgorithm \<Rightarrow> Schedule \<Rightarrow> Schedule \<Rightarrow> rng \<Rightarrow> py_error + (Schedule \<times> rng)" where
  "crossover ga parent1 parent2 g =
     (case random_randint 1 (int (length (activities ga)) - 1) g of
        Inl e \<Rightarrow> Inl e
      | Inr (crossover_point, g') \<Rightarrow>
          Inr (new_Schedule (take (nat crossover_point) (items parent1)
                               @ drop (nat crossover_point) (items parent2)), g'))"

subsection \<open>\<open>mutate\<close> on item values (lines 184-195)\<close>

text \<open>The items are values here and the result is a new list, which is what the deep copy
  amounts to when the items of the input are distinct objects, as they are in every
  schedule the engine builds; the model on objects follows below.\<close>

definition mutate_item ::
  "GeneticAlgorithm \<Rightarrow> ScheduleItem \<Rightarrow> rng \<Rightarrow> py_error + (ScheduleItem \<times> rng)" where
  "mutate_item ga item g =
     (let draw = random_random g
      in if fst draw < mutation_rate ga then
           (case random_choice [''room'', ''time'', ''facilitator''] (snd draw) of
              Inl e \<Rightarrow> Inl e
            | Inr (mutation_type, g2) \<Rightarrow>
                (if mutation_type = ''room'' then
                   (case random_choice (rooms ga) g2 of
                      Inl e \<Rightarrow> Inl e
                    | Inr (r, g3) \<Rightarrow> Inr (item\<lparr>room := r\<rparr>, g3))
                 else if mutation_type = ''time'' then
                   (case random_choice (time_slots ga) g2 of
                      Inl e \<Rightarrow> Inl e
                    | Inr (t, g3) \<Rightarrow> Inr (item\<lparr>time_slot := t\<rparr>, g3))
                 else
                   (case random_choice (facilitators ga) g2 of
                      Inl e \<Rightarrow> Inl e
                    | Inr (f, g3) \<Rightarrow> Inr (item\<lparr>facilitator := f\<rparr>, g3))))
         else Inr (item, snd draw))"

fun mutate_loop ::
  "GeneticAlgorithm \<Rightarrow> ScheduleItem list \<Rightarrow> rng \<Rightarrow> py_error + (ScheduleItem list \<times> rng)" where
  "mutate_loop ga [] g = Inr ([], g)"
| "mutate_loop ga (item # rest) g =
     (case mutate_item ga item g of
        Inl e \<Rightarrow> Inl e
      | Inr (item', g1) \<Rightarrow>
          (case mutate_loop ga rest g1 of
             Inl e \<Rightarrow> Inl e
           | Inr (rest', g2) \<Rightarrow> Inr (item' # rest', g2)))"

definition mutate ::
  "GeneticAlgorithm \<Rightarrow> Schedule \<Rightarrow> rng \<Rightarrow> py_error + (Schedule \<times> rng)" where
  "mutate ga schedule g =
     (case mutate_loop ga (items schedule) g of
        Inl e \<Rightarrow> Inl e
      | Inr (new_items, g') \<Rightarrow> Inr (new_Schedule new_items, g'))"

subsection \<open>\<open>mutate\<close> on objects: the deep copy (lines 185-186, 195)\<close>

text \<open>
  \<open>mutate_loop\<close> above works on item values. What \<open>mutate\<close> does to the objects is modelled
  on a store of \<open>ScheduleItem\<close> objects: a schedule's item list is a list of addresses,
  \<open>copy.deepcopy\<close> gives every object it meets for the first time a copy at a fresh address
  and returns that same copy when it meets the object again (its memo), and the loop then
  assigns to the copies through their addresses. The activities, rooms and time slots an
  item refers to are never assigned to, so they stay values inside the item. \<open>next_addr\<close>
  is the first address not yet in use.
\<close>

type_synonym addr = nat

record heap =
  cell :: "addr \<Rightarrow> ScheduleItem"
  next_addr :: addr

fun deepcopy_items ::
  "addr list \<Rightarrow> (addr \<rightharpoonup> addr) \<Rightarrow> heap \<Rightarrow> addr list \<times> (addr \<rightharpoonup> addr) \<times> heap" where
  "deepcopy_items [] memo h = ([], memo, h)"
| "deepcopy_items (a # rest) memo h =
     (case memo a of
        Some a' \<Rightarrow>
          (let copied = deepcopy_items rest memo h
           in (a' # fst copied, snd copied))
      | None \<Rightarrow>
          (let a' = next_addr h;
               h1 = h\<lparr>cell := (cell h)(a' := cell h a), next_addr := Suc a'\<rparr>;
               copied = deepcopy_items rest (memo(a \<mapsto> a')) h1
           in (a' # fst copied, snd copied)))"

fun mutate_refs ::
  "GeneticAlgorithm \<Rightarrow> addr list \<Rightarrow> heap \<Rightarrow> rng \<Rightarrow> py_error + (heap \<times> rng)" where
  "mutate_refs ga [] h g = Inr (h, g)"
| "mutate_refs ga (a # rest) h g =
     (case mutate_item ga (cell h a) g of
        Inl e \<Rightarrow> Inl e
      | Inr (item', g1) \<Rightarrow> mutate_refs ga rest (h\<lparr>cell := (cell h)(a := item')\<rparr>) g1)"

definition mutate_heap ::
  "GeneticAlgorithm \<Rightarrow> addr list \<Rightarrow> heap \<Rightarrow> rng \<Rightarrow> py_error + (addr list \<times> heap \<times> rng)" where
  "mutate_heap ga item_refs h g =
     (let copied = deepcopy_items item_refs Map.empty h;
          new_items = fst copied
      in case mutate_refs ga new_items (snd (snd copied)) g of
           Inl e \<Rightarrow> Inl e
         | Inr (h', g') \<Rightarrow> Inr (new_items, h', g'))"

subsection \<open>\<open>evolve\<close> (lines 202-233)\<close>

text \<open>The comprehension of line 208: every schedule's score, and the population with
  the caches filled.\<close>

fun fitnesses_of :: "Schedule list \<Rightarrow> py_error + (rat list \<times> Schedule list)" where
  "fitnesses_of [] = Inr ([], [])"
| "fitnesses_of (s # rest) =
     (case get_fitness s of
        Inl e \<Rightarrow> Inl e
      | Inr (f, s') \<Rightarrow>
          (case fitnesses_of rest of
             Inl e \<Rightarrow> Inl e
           | Inr (fs, rest') \<Rightarrow> Inr (f # fs, s' # rest')))"

definition py_max :: "rat list \<Rightarrow> py_error + rat" where
  "py_max xs =
     (case xs of
        [] \<Rightarrow> Inl ValueError
      | x # rest \<Rightarrow> Inr (fold (\<lambda>v m. if v > m then v else m) rest x))"

text \<open>A list subscript: a negative index counts from the end, and an index outside the
  list raises \<open>IndexError\<close>.\<close>

definition py_index :: "'a list \<Rightarrow> int \<Rightarrow> py_error + 'a" where
  "py_index xs i =
     (if 0 \<le> i \<and> i < int (length xs) then Inr (xs ! nat i)
      else if i < 0 \<and> - int (length xs) \<le> i then Inr (xs ! nat (int (length xs) + i))
      else Inl IndexError)"

text \<open>Lines 217-218. Dividing a float by \<open>0.0\<close> raises \<open>ZeroDivisionError\<close> in Python.\<close>

definition improvement_of :: "rat list \<Rightarrow> py_error + rat" where
  "improvement_of avg_fitness_history =
     (case py_index avg_fitness_history (- 1) of
        Inl e \<Rightarrow> Inl e
      | Inr now \<Rightarrow>
          (case py_index avg_fitness_history (- 100) of
             Inl e \<Rightarrow> Inl e
           | Inr past \<Rightarrow>
               (if \<bar>past\<bar> = 0 then Inl ZeroDivisionError
                else Inr ((now - past) / \<bar>past\<bar>))))"

text \<open>Lines 216-220: \<open>Inr True\<close> is the \<open>break\<close>.\<close>

definition convergence_check :: "nat \<Rightarrow> rat list \<Rightarrow> rat \<Rightarrow> py_error + bool" where
  "convergence_check gen avg_fitness_history improvement_threshold =
     (if gen \<ge> 100 then
        (case improvement_of avg_fitness_history of
           Inl e \<Rightarrow> Inl e
         | Inr improvement \<Rightarrow> Inr (improvement < improvement_threshold))
      else Inr False)"

text \<open>Lines 207-220: the scores of the generation, the two histories extended, and
  whether the loop breaks.\<close>

definition assess_generation ::
  "nat \<Rightarrow> rat \<Rightarrow> GeneticAlgorithm \<Rightarrow> rat list \<Rightarrow> rat list
     \<Rightarrow> py_error + (bool \<times> GeneticAlgorithm \<times> rat list \<times> rat list)" where
  "assess_generation gen improvement_threshold ga avg_fitness_history best_fitness_history =
     (case fitnesses_of (population ga) of
        Inl e \<Rightarrow> Inl e
      | Inr (fitnesses, pop) \<Rightarrow>
          (if fitnesses = [] then Inl ZeroDivisionError
           else
             (case py_max fitnesses of
                Inl e \<Rightarrow> Inl e
              | Inr best_fitness \<Rightarrow>
                  (let avg_fitness = sum_list fitnesses / of_nat (length fitnesses);
                       avg_h = avg_fitness_history @ [avg_fitness];
                       best_h = best_fitness_history @ [best_fitness]
                   in case convergence_check gen avg_h improvement_threshold of
                        Inl e \<Rightarrow> Inl e
                      | Inr stop \<Rightarrow> Inr (stop, ga\<lparr>population := pop\<rparr>, avg_h, best_h)))))"

text \<open>Lines 225-228: one child, from two tournaments, a crossover and a mutation.\<close>

definition make_child ::
  "GeneticAlgorithm \<Rightarrow> rng \<Rightarrow> py_error + (Schedule \<times> rng)" where
  "make_child ga g =
     (case select_parent (population ga) g of
        Inl e \<Rightarrow> Inl e
      | Inr (parent1, g1) \<Rightarrow>
          (case select_parent (population ga) g1 of
             Inl e \<Rightarrow> Inl e
           | Inr (parent2, g2) \<Rightarrow>
               (case crossover ga parent1 parent2 g2 of
                  Inl e \<Rightarrow> Inl e
                | Inr (child, g3) \<Rightarrow> mutate ga child g3)))"

text \<open>Lines 223-229, the \<open>while\<close> loop that fills the next generation.\<close>

function breed ::
  "GeneticAlgorithm \<Rightarrow> Schedule list \<Rightarrow> rng \<Rightarrow> py_error + (Schedule list \<times> rng)" where
  "breed ga new_population g =
     (if int (length new_population) < population_size ga then
        (case make_child ga g of
           Inl e \<Rightarrow> Inl e
         | Inr (child, g') \<Rightarrow> breed ga (new_population @ [child]) g')
      else Inr (new_population, g))"
  by pat_completeness auto
termination
  by (relation "measure (\<lambda>(ga, new_population, g).
        nat (population_size ga - int (length new_population)))") auto

declare breed.simps [simp del]

text \<open>The generation loop of lines 206-231, from generation index \<open>gen\<close> on, with the two
  histories as they stand when that iteration starts.\<close>

function evolve_loop ::
  "rat \<Rightarrow> nat \<Rightarrow> nat \<Rightarrow> GeneticAlgorithm \<Rightarrow> rat list \<Rightarrow> rat list \<Rightarrow> rng
     \<Rightarrow> py_error + (GeneticAlgorithm \<times> rat list \<times> rat list \<times> rng)" where
  "evolve_loop improvement_threshold generations gen ga avg_fitness_history
       best_fitness_history g =
     (if gen < generations then
        (case assess_generation gen improvement_threshold ga avg_fitness_history
                best_fitness_history of
           Inl e \<Rightarrow> Inl e
         | Inr (stop, ga1, avg_h, best_h) \<Rightarrow>
             (if stop then Inr (ga1, avg_h, best_h, g)
              else
                (case breed ga1 [] g of
                   Inl e \<Rightarrow> Inl e
                 | Inr (new_population, g') \<Rightarrow>
                     evolve_loop improvement_threshold generations (Suc gen)
                       (ga1\<lparr>population := new_population\<rparr>) avg_h best_h g')))
      else Inr (ga, avg_fitness_history, best_fitness_history, g))"
  by pat_completeness auto
termination
  by (relation "measure (\<lambda>(thr, generations, gen, rest). generations - gen)") auto

declare evolve_loop.simps [simp del]

definition evolve ::
  "GeneticAlgorithm \<Rightarrow> int \<Rightarrow> rat \<Rightarrow> rng \<Rightarrow> py_error + (Schedule \<times> GeneticAlgorithm \<times> rng)" where
  "evolve ga generations improvement_threshold g =
     (case evolve_loop improvement_threshold (nat generations) 0 ga [] [] g of
        Inl e \<Rightarrow> Inl e
      | Inr (ga', avg_h, best_h, g') \<Rightarrow>
          (case max_by_fitness (population ga') of
             Inl e \<Rightarrow> Inl e
           | Inr best \<Rightarrow> Inr (best, ga', g')))"

section \<open>Vocabulary of the statements\<close>

text \<open>The number of items of a schedule that a facilitator holds, and the items that
  share an item's time-slot key: what the two dictionaries of the first loop hold.\<close>

definition load_of :: "ScheduleItem list \<Rightarrow> string \<Rightarrow> int" where
  "load_of its f = int (length (filter (\<lambda>x. facilitator x = f) its))"

definition slot_of :: "ScheduleItem list \<Rightarrow> ScheduleItem \<Rightarrow> ScheduleItem list" where
  "slot_of its item =
     filter (\<lambda>x. str_TimeSlot (time_slot x) = str_TimeSlot (time_slot item)) its"

text \<open>Concrete inputs of the examples.\<close>

definition sla191 :: "string \<Rightarrow> int \<Rightarrow> ScheduleItem" where
  "sla191 sec h =
     \<lparr>activity = mk_activity ''SLA191'' 50 {''Glen'', ''Lock'', ''Banks'', ''Zeldin''}
        {''Numen'', ''Richards''} (Some sec),
      room = mk_room ''Roman 201'' 50 ''Roman'',
      time_slot = mk_time_slot h 0,
      facilitator = ''Glen''\<rparr>"


definition double_booked :: ScheduleItem where
  "double_booked =
     \<lparr>activity = mk_activity ''SLA201'' 50 {''Glen'', ''Banks'', ''Zeldin'', ''Shaw''}
        {''Numen'', ''Richards'', ''Singer''} None,
      room = mk_room ''Roman 201'' 50 ''Roman'',
      time_slot = mk_time_slot 10 0,
      facilitator = ''Glen''\<rparr>"

text \<open>How many of the three assignable facets differ between two items, and what one
  mutation of a gene may produce: the item with one facet drawn afresh from its domain.\<close>

definition facets_changed :: "ScheduleItem \<Rightarrow> ScheduleItem \<Rightarrow> nat" where
  "facets_changed old new =
     (if room new = room old then 0 else 1)
     + (if time_slot new = time_slot old then 0 else 1)
     + (if facilitator new = facilitator old then 0 else 1)"

definition redrawn :: "GeneticAlgorithm \<Rightarrow> ScheduleItem \<Rightarrow> ScheduleItem \<Rightarrow> bool" where
  "redrawn ga old new \<longleftrightarrow>
     (\<exists>r \<in> set (rooms ga). new = old\<lparr>room := r\<rparr>)
     \<or> (\<exists>t \<in> set (time_slots ga). new = old\<lparr>time_slot := t\<rparr>)
     \<or> (\<exists>f \<in> set (facilitators ga). new = old\<lparr>facilitator := f\<rparr>)"

definition demo_items1 :: "ScheduleItem list" where
  "demo_items1 = [sla191 ''A'' 10, sla191 ''B'' 10, double_booked]"

definition demo_items2 :: "ScheduleItem list" where
  "demo_items2 = [sla191 ''A'' 11, sla191 ''B'' 12, double_booked\<lparr>facilitator := ''Banks''\<rparr>]"

definition demo_ga :: "rat \<Rightarrow> GeneticAlgorithm" where
  "demo_ga rate =
     \<lparr>activities = map activity demo_items1,
      rooms = [mk_room ''Roman 201'' 50 ''Roman'', mk_room ''Loft 206'' 75 ''Loft''],
      time_slots = [mk_time_slot 10 0, mk_time_slot 11 0],
      facilitators = [''Glen'', ''Banks''],
      population_size = 5, mutation_rate = rate, population = []\<rparr>"

text \<open>The ordering invariant of a schedule: one item per activity of the canonical list,
  the item at position \<open>i\<close> carrying the activity at position \<open>i\<close>.\<close>

definition follows_activities :: "Activity list \<Rightarrow> Schedule \<Rightarrow> bool" where
  "follows_activities acts s \<longleftrightarrow> map activity (items s) = acts"

text \<open>A population that has settled on one item list: every schedule carries the items
  \<open>its\<close>, whose score is \<open>F\<close>; the engine has at least the five individuals a tournament
  needs, at least two activities, and never mutates. \<open>cached\<close> is such an engine after
  the scores were read, \<open>next_generation\<close> after breeding.\<close>

definition settled :: "ScheduleItem list \<Rightarrow> rat \<Rightarrow> GeneticAlgorithm \<Rightarrow> bool" where
  "settled its F ga \<longleftrightarrow>
     (\<forall>s \<in> set (population ga).
        items s = its \<and> (fitness_cache s = None \<or> fitness_cache s = Some F))
     \<and> calculate_fitness its = Inr F
     \<and> 5 \<le> length (population ga)
     \<and> int (length (population ga)) = population_size ga
     \<and> 2 \<le> length (activities ga)
     \<and> mutation_rate ga \<le> 0"

definition cached :: "rat \<Rightarrow> GeneticAlgorithm \<Rightarrow> GeneticAlgorithm" where
  "cached F ga = ga\<lparr>population := map (\<lambda>s. s\<lparr>fitness_cache := Some F\<rparr>) (population ga)\<rparr>"

definition next_generation :: "ScheduleItem list \<Rightarrow> GeneticAlgorithm \<Rightarrow> GeneticAlgorithm" where
  "next_generation its ga =
     ga\<lparr>population := replicate (nat (population_size ga)) (new_Schedule its)\<rparr>"

text \<open>A small engine for complete runs: four classes of 100 students that only Shaw
  teaches, two rooms that are too small, four time slots; and the draws that make the
  constructor build chosen populations.\<close>

definition big_class :: "string \<Rightarrow> Activity" where
  "big_class n = mk_activity n 100 {''Shaw''} {} None"

definition tiny_acts :: "Activity list" where
  "tiny_acts = [big_class ''C1'', big_class ''C2'', big_class ''C3'', big_class ''C4'']"

definition tiny_rooms :: "Room list" where
  "tiny_rooms = [mk_room ''Roman 216'' 30 ''Roman'', mk_room ''Slater 003'' 45 ''Slater'']"

definition tiny_slots :: "TimeSlot list" where
  "tiny_slots = [mk_time_slot 10 0, mk_time_slot 11 0, mk_time_slot 12 0, mk_time_slot 13 0]"

definition booking :: "string \<Rightarrow> nat \<Rightarrow> nat \<Rightarrow> ScheduleItem" where
  "booking n r t =
     \<lparr>activity = big_class n, room = tiny_rooms ! r, time_slot = tiny_slots ! t,
      facilitator = ''Shaw''\<rparr>"

definition zero_items :: "ScheduleItem list" where
  "zero_items = [booking ''C1'' 0 0, booking ''C2'' 0 1, booking ''C3'' 0 2, booking ''C4'' 1 2]"

definition best_items :: "ScheduleItem list" where
  "best_items = [booking ''C1'' 0 0, booking ''C2'' 0 1, booking ''C3'' 0 2, booking ''C4'' 0 3]"

definition worst_items :: "ScheduleItem list" where
  "worst_items = [booking ''C1'' 0 0, booking ''C2'' 0 0, booking ''C3'' 0 0, booking ''C4'' 0 0]"

definition tiny_ga :: "Schedule list \<Rightarrow> GeneticAlgorithm" where
  "tiny_ga pop =
     \<lparr>activities = tiny_acts, rooms = tiny_rooms, time_slots = tiny_slots,
      facilitators = [''Shaw''], population_size = 5, mutation_rate = 0, population = pop\<rparr>"

definition zero_draws :: "nat list" where
  "zero_draws = [0,0,0, 0,1,0, 0,2,0, 1,2,0]"

definition best_draws :: "nat list" where
  "best_draws = [0,0,0, 0,1,0, 0,2,0, 0,3,0]"

definition zero_tape :: rng where
  "zero_tape = zero_draws @- zero_draws @- zero_draws @- zero_draws @- zero_draws @- sconst 0"

definition best_tape :: rng where
  "best_tape = best_draws @- sconst 0"

definition scored :: "ScheduleItem list \<Rightarrow> rat \<Rightarrow> Schedule" where
  "scored its f = \<lparr>items = its, fitness_cache = Some f\<rparr>"

definition first_generation :: "Schedule list" where
  "first_generation = [scored best_items (4/5), scored worst_items (- (34/5)),
     scored worst_items (- (34/5)), scored worst_items (- (34/5)),
     scored worst_items (- (34/5))]"

text \<open>The memo of a deep copy in progress relates objects that existed before the copy
  began (below \<open>n0\<close>) to their copies, which hold the same item. \<open>two_objects\<close> is a store
  with two item objects.\<close>

definition memo_ok :: "addr \<Rightarrow> (addr \<rightharpoonup> addr) \<Rightarrow> heap \<Rightarrow> bool" where
  "memo_ok n0 memo h \<longleftrightarrow>
     (\<forall>a a'. memo a = Some a' \<longrightarrow>
        a < n0 \<and> n0 \<le> a' \<and> a' < next_addr h \<and> cell h a' = cell h a)"

definition two_objects :: heap where
  "two_objects =
     \<lparr>cell = (\<lambda>a. if a = 0 then sla191 ''A'' 10 else double_booked), next_addr = 2\<rparr>"

section \<open>Lemmas on the fitness function\<close>

lemma fold_tally_loads:
  "fst (fold tally its tabs) f =
     (if filter (\<lambda>x. facilitator x = f) its = [] then fst tabs f
      else Some ((case fst tabs f of None \<Rightarrow> 0 | Some c \<Rightarrow> c)
                  + int (length (filter (\<lambda>x. facilitator x = f) its))))"
proof (induction its arbitrary: tabs)
  case Nil
  then show ?case by simp
next
  case (Cons a its)
  show ?case
    by (simp add: Cons.IH) (simp add: tally_def Let_def)
qed

lemma fold_tally_slots:
  "snd (fold tally its tabs) k =
     (if filter (\<lambda>x. str_TimeSlot (time_slot x) = k) its = [] then snd tabs k
      else Some ((case snd tabs k of None \<Rightarrow> [] | Some xs \<Rightarrow> xs)
                  @ filter (\<lambda>x. str_TimeSlot (time_slot x) = k) its))"
proof (induction its arbitrary: tabs)
  case Nil
  then show ?case by simp
next
  case (Cons a its)
  show ?case
    by (simp add: Cons.IH) (simp add: tally_def Let_def)
qed

lemma build_tables_loads:
  "item \<in> set its \<Longrightarrow>
   fst (build_tables its) (facilitator item) = Some (load_of its (facilitator item))"
  by (auto simp: build_tables_def fold_tally_loads filter_empty_conv load_of_def)

lemma build_tables_slots:
  "item \<in> set its \<Longrightarrow>
   snd (build_tables its) (str_TimeSlot (time_slot item)) = Some (slot_of its item)"
  by (auto simp: build_tables_def fold_tally_slots filter_empty_conv slot_of_def)

lemma item_fitness_tables:
  assumes "item \<in> set its"
  shows "item_fitness (fst (build_tables its)) (snd (build_tables its)) its item =
     Inr (consecutive_slots its item
           (paired_section its item
             (total_load (load_of its (facilitator item)) item
               (slot_load (slot_of its item) item
                 (facilitator_preference item
                   (room_size_check item
                     (room_conflicts (slot_of its item) item 0)))))))"
  by (simp add: item_fitness_def build_tables_loads [OF assms] build_tables_slots [OF assms])

lemma score_loop_total:
  "\<forall>item \<in> set rest. \<exists>f. item_fitness L T its item = Inr f \<Longrightarrow>
   \<exists>f. score_loop L T its rest acc = Inr f"
  by (induction rest arbitrary: acc) auto

lemma calculate_fitness_total: "\<exists>f. calculate_fitness its = Inr f"
  unfolding calculate_fitness_def
  by (rule score_loop_total) (simp add: item_fitness_tables)


lemma data_activity_names:
  "a \<in> set data_activities \<Longrightarrow> act_name a \<notin> set [''SLA 101'', ''SLA 191'']"
  by (auto simp: data_activities_def mk_activity_def)



lemma score_loop_sum:
  assumes "\<forall>item \<in> set rest. item_fitness L T its item = Inr (F item)"
  shows "score_loop L T its rest acc = Inr (acc + sum_list (map F rest))"
  using assms
  by (induction rest arbitrary: acc) (simp_all add: add.assoc)

section \<open>Lemmas on the genetic algorithm\<close>

lemma random_choice_Inr:
  "random_choice xs g = Inr (x, g') \<Longrightarrow> x \<in> set xs \<and> g' = stl g \<and> xs \<noteq> []"
  by (auto simp: random_choice_def split: if_splits)

lemma random_choice_Inl:
  "random_choice xs g = Inl e \<longleftrightarrow> xs = [] \<and> e = IndexError"
  by (auto simp: random_choice_def)

lemma random_choice_nonempty:
  "xs \<noteq> [] \<Longrightarrow> random_choice xs g = Inr (xs ! (shd g mod length xs), stl g)"
  by (simp add: random_choice_def)

lemma random_schedule_items_Inr:
  "random_schedule_items ga acts g = Inr (its, g') \<Longrightarrow> map activity its = acts"
  by (induction acts arbitrary: g its g')
     (auto split: sum.splits prod.splits)

lemma random_schedule_items_ok:
  assumes "rooms ga \<noteq> []" "time_slots ga \<noteq> []" "facilitators ga \<noteq> []"
  shows "\<exists>its g'. random_schedule_items ga acts g = Inr (its, g')"
proof (induction acts arbitrary: g)
  case Nil
  then show ?case by simp
next
  case (Cons a acts)
  obtain its g' where
    "random_schedule_items ga acts (stl (stl (stl g))) = Inr (its, g')"
    using Cons.IH by blast
  then show ?case
    using assms by (simp add: random_choice_nonempty)
qed

lemma random_schedule_items_fail:
  assumes "acts \<noteq> []" "rooms ga = [] \<or> time_slots ga = [] \<or> facilitators ga = []"
  shows "random_schedule_items ga acts g = Inl IndexError"
proof -
  obtain a rest where acts: "acts = a # rest"
    using assms(1) by (cases acts) auto
  show ?thesis
    using assms(2) unfolding acts
    by (auto simp: random_choice_def)
qed

lemma random_schedule_items_Nil: "random_schedule_items ga [] g = Inr ([], g)"
  by simp

lemma population_loop_Inr:
  "population_loop ga n g = Inr (pop, g') \<Longrightarrow>
   length pop = n \<and> (\<forall>s \<in> set pop. map activity (items s) = activities ga
                        \<and> fitness_cache s = None)"
proof (induction n arbitrary: g pop g')
  case 0
  then show ?case by simp
next
  case (Suc n)
  from Suc.prems obtain its g1 rest where
    its: "random_schedule_items ga (activities ga) g = Inr (its, g1)"
    and rest: "population_loop ga n g1 = Inr (rest, g')"
    and pop: "pop = new_Schedule its # rest"
    by (auto split: sum.splits prod.splits)
  show ?case
    using Suc.IH [OF rest] random_schedule_items_Inr [OF its] pop
    by (simp add: new_Schedule_def)
qed

lemma population_loop_ok:
  assumes "\<And>g. \<exists>its g'. random_schedule_items ga (activities ga) g = Inr (its, g')"
  shows "\<exists>pop g'. population_loop ga n g = Inr (pop, g')"
proof (induction n arbitrary: g)
  case 0
  then show ?case by simp
next
  case (Suc n)
  obtain its g1 where its: "random_schedule_items ga (activities ga) g = Inr (its, g1)"
    using assms by blast
  obtain rest g2 where "population_loop ga n g1 = Inr (rest, g2)"
    using Suc.IH by blast
  with its show ?case by simp
qed

lemma population_loop_fail:
  assumes "random_schedule_items ga (activities ga) g = Inl e" "0 < n"
  shows "population_loop ga n g = Inl e"
  using assms by (cases n) auto

lemma initialize_population_fails_iff:
  "(\<exists>e. initialize_population ga g = Inl e) \<longleftrightarrow>
     (0 < population_size ga \<and> activities ga \<noteq> []
        \<and> (rooms ga = [] \<or> time_slots ga = [] \<or> facilitators ga = []))"
proof (cases "0 < population_size ga \<and> activities ga \<noteq> []
        \<and> (rooms ga = [] \<or> time_slots ga = [] \<or> facilitators ga = [])")
  case True
  then have "random_schedule_items ga (activities ga) g = Inl IndexError"
    by (simp add: random_schedule_items_fail)
  then have "population_loop ga (nat (population_size ga)) g = Inl IndexError"
    using True by (simp add: population_loop_fail)
  with True show ?thesis by (simp add: initialize_population_def)
next
  case False
  have "\<exists>pop g'. population_loop ga (nat (population_size ga)) g = Inr (pop, g')"
  proof (cases "0 < population_size ga")
    case False
    then show ?thesis by simp
  next
    case pos: True
    show ?thesis
    proof (cases "activities ga = []")
      case True
      then show ?thesis
        by (intro population_loop_ok) simp
    next
      case ne: False
      with pos False have "rooms ga \<noteq> []" "time_slots ga \<noteq> []" "facilitators ga \<noteq> []"
        by auto
      then show ?thesis
        by (intro population_loop_ok random_schedule_items_ok)
    qed
  qed
  with False show ?thesis by (auto simp: initialize_population_def)
qed

lemma initialize_population_error:
  "initialize_population ga g = Inl e \<Longrightarrow> e = IndexError"
proof -
  assume a: "initialize_population ga g = Inl e"
  then have "0 < population_size ga \<and> activities ga \<noteq> []
        \<and> (rooms ga = [] \<or> time_slots ga = [] \<or> facilitators ga = [])"
    using initialize_population_fails_iff by blast
  then have "population_loop ga (nat (population_size ga)) g = Inl IndexError"
    by (simp add: population_loop_fail random_schedule_items_fail)
  with a show ?thesis by (simp add: initialize_population_def)
qed

lemma GeneticAlgorithm_init_fails:
  "((\<exists>e. GeneticAlgorithm_init acts rms slots facs psize mrate g = Inl e) \<longleftrightarrow>
      (0 < psize \<and> acts \<noteq> [] \<and> (rms = [] \<or> slots = [] \<or> facs = [])))
   \<and> (GeneticAlgorithm_init acts rms slots facs psize mrate g = Inl IndexError \<longleftrightarrow>
      (\<exists>e. GeneticAlgorithm_init acts rms slots facs psize mrate g = Inl e))"
proof -
  let ?self = "\<lparr>activities = acts, rooms = rms, time_slots = slots, facilitators = facs,
                  population_size = psize, mutation_rate = mrate, population = []\<rparr>"
  have init: "(\<exists>e. GeneticAlgorithm_init acts rms slots facs psize mrate g = Inl e)
       \<longleftrightarrow> (\<exists>e. initialize_population ?self g = Inl e)"
    by (auto simp: GeneticAlgorithm_init_def Let_def split: sum.splits prod.splits)
  have err: "GeneticAlgorithm_init acts rms slots facs psize mrate g = Inl e \<Longrightarrow> e = IndexError" for e
    using initialize_population_error [of ?self g e]
    by (auto simp: GeneticAlgorithm_init_def Let_def split: sum.splits prod.splits)
  have iff1: "(\<exists>e. GeneticAlgorithm_init acts rms slots facs psize mrate g = Inl e) \<longleftrightarrow>
      (0 < psize \<and> acts \<noteq> [] \<and> (rms = [] \<or> slots = [] \<or> facs = []))"
    unfolding init initialize_population_fails_iff by simp
  have iff2: "GeneticAlgorithm_init acts rms slots facs psize mrate g = Inl IndexError \<longleftrightarrow>
      (\<exists>e. GeneticAlgorithm_init acts rms slots facs psize mrate g = Inl e)"
    using err by blast
  show ?thesis
    by (rule conjI [OF iff1 iff2])
qed

lemma random_randint_Inr:
  "a \<le> b \<Longrightarrow> random_randint a b g = Inr (a + int (shd g mod nat (b - a + 1)), stl g)"
  by (simp add: random_randint_def)

lemma random_randint_range:
  "random_randint a b g = Inr (c, g') \<Longrightarrow> a \<le> c \<and> c \<le> b \<and> g' = stl g"
proof -
  assume r: "random_randint a b g = Inr (c, g')"
  then have ab: "a \<le> b" and c: "c = a + int (shd g mod nat (b - a + 1))" and g: "g' = stl g"
    by (auto simp: random_randint_def split: if_splits)
  have "shd g mod nat (b - a + 1) < nat (b - a + 1)"
    using ab by (intro mod_less_divisor) simp
  then show ?thesis using ab c g by linarith
qed

lemma crossover_Inr:
  assumes "crossover ga parent1 parent2 g = Inr (child, g')"
  shows "\<exists>c. 1 \<le> c \<and> c \<le> length (activities ga) - 1
           \<and> child = new_Schedule (take c (items parent1) @ drop c (items parent2))
           \<and> g' = stl g"
proof -
  from assms obtain cp where
    cp: "random_randint 1 (int (length (activities ga)) - 1) g = Inr (cp, g')"
    and child: "child = new_Schedule (take (nat cp) (items parent1) @ drop (nat cp) (items parent2))"
    by (auto simp: crossover_def split: sum.splits prod.splits)
  from random_randint_range [OF cp]
  have "1 \<le> nat cp \<and> nat cp \<le> length (activities ga) - 1" and "g' = stl g"
    by auto
  with child show ?thesis by blast
qed

lemma crossover_preserves_activities:
  assumes "crossover ga parent1 parent2 g = Inr (child, g')"
    and "map activity (items parent1) = activities ga"
    and "map activity (items parent2) = activities ga"
  shows "map activity (items child) = activities ga"
proof -
  from crossover_Inr [OF assms(1)] obtain c where
    child: "child = new_Schedule (take c (items parent1) @ drop c (items parent2))"
    by blast
  have "map activity (items child)
      = take c (map activity (items parent1)) @ drop c (map activity (items parent2))"
    by (simp add: child new_Schedule_def take_map drop_map)
  then show ?thesis
    by (simp add: assms(2,3))
qed

lemma crossover_cut:
  assumes "length (items parent1) = length (activities ga)"
    and "length (items parent2) = length (activities ga)"
    and "2 \<le> length (activities ga)"
  shows "\<exists>C child.
           crossover ga parent1 parent2 g = Inr (child, stl g)
           \<and> C = 1 + shd g mod (length (activities ga) - 1)
           \<and> 1 \<le> C \<and> C \<le> length (activities ga) - 1
           \<and> length (items child) = length (activities ga)
           \<and> take C (items child) = take C (items parent1)
           \<and> drop C (items child) = drop C (items parent2)
           \<and> fitness_cache child = None"
proof -
  let ?K = "length (activities ga)"
  let ?C = "1 + shd g mod (?K - 1)"
  let ?child = "new_Schedule (take ?C (items parent1) @ drop ?C (items parent2))"
  have lt: "shd g mod (?K - 1) < ?K - 1"
    using assms(3) by (intro mod_less_divisor) simp
  have n: "nat (int ?K - 1 - 1 + 1) = ?K - 1"
    using assms(3) by simp
  have r: "random_randint 1 (int ?K - 1) g = Inr (int ?C, stl g)"
    using assms(3) unfolding random_randint_def n by simp
  have nc: "nat (int ?C) = ?C"
    by (rule nat_int)
  have x: "crossover ga parent1 parent2 g = Inr (?child, stl g)"
    unfolding crossover_def r by (simp only: nc sum.case prod.case)
  have C: "1 \<le> ?C" "?C \<le> ?K - 1"
    using lt by simp_all
  have len: "length (items ?child) = ?K"
    using C assms by (simp add: new_Schedule_def)
  have tk: "take ?C (items ?child) = take ?C (items parent1)"
    using C assms by (simp add: new_Schedule_def)
  have dr: "drop ?C (items ?child) = drop ?C (items parent2)"
    using C assms by (simp add: new_Schedule_def)
  show ?thesis
    using x C len tk dr by (intro exI [of _ ?C] exI [of _ ?child]) (simp add: new_Schedule_def)
qed

lemma crossover_every_cut:
  assumes "2 \<le> length (activities ga)" "1 \<le> c" "c \<le> length (activities ga) - 1"
  shows "crossover ga parent1 parent2 ((c - 1) ## g)
           = Inr (new_Schedule (take c (items parent1) @ drop c (items parent2)), g)"
proof -
  let ?K = "length (activities ga)"
  have n: "nat (int ?K - 1 - 1 + 1) = ?K - 1"
    using assms(1) by simp
  have m: "(c - 1) mod (?K - 1) = c - 1"
    using assms by simp
  have r: "random_randint 1 (int ?K - 1) ((c - 1) ## g) = Inr (int c, g)"
    using assms unfolding random_randint_def n by (simp add: m)
  show ?thesis
    unfolding crossover_def r by simp
qed

lemma random_random_range: "0 \<le> fst (random_random g) \<and> fst (random_random g) < 1"
proof -
  have "shd g mod 2 ^ 53 < (2::nat) ^ 53"
    by simp
  then have "(of_nat (shd g mod 2 ^ 53) :: rat) < of_nat (2 ^ 53)"
    by (simp only: of_nat_less_iff)
  then show ?thesis
    by (simp add: random_random_def)
qed

lemma random_random_stl [simp]: "snd (random_random g) = stl g"
  by (simp add: random_random_def)

lemma mutate_item_cases:
  assumes "mutate_item ga item g = Inr (item', g')"
  shows "(item' = item \<and> \<not> fst (random_random g) < mutation_rate ga)
       \<or> (fst (random_random g) < mutation_rate ga \<and> redrawn ga item item')"
  using assms
  by (auto simp: mutate_item_def Let_def redrawn_def
      split: if_splits sum.splits prod.splits dest!: random_choice_Inr)

lemma redrawn_facets:
  "redrawn ga old new \<Longrightarrow> activity new = activity old \<and> facets_changed old new \<le> 1"
  by (auto simp: redrawn_def facets_changed_def)

lemma mutate_item_facets:
  assumes "mutate_item ga item g = Inr (item', g')"
  shows "activity item' = activity item \<and> facets_changed item item' \<le> 1"
proof -
  from mutate_item_cases [OF assms] show ?thesis
  proof
    assume "item' = item \<and> \<not> fst (random_random g) < mutation_rate ga"
    then show ?thesis by (simp add: facets_changed_def)
  next
    assume "fst (random_random g) < mutation_rate ga \<and> redrawn ga item item'"
    then show ?thesis using redrawn_facets [of ga item item'] by simp
  qed
qed

lemma mutate_item_rate_0:
  "mutation_rate ga \<le> 0 \<Longrightarrow> mutate_item ga item g = Inr (item, stl g)"
  using random_random_range [of g]
  by (simp add: mutate_item_def Let_def)

lemma mutate_item_rate_1:
  assumes "1 \<le> mutation_rate ga" "mutate_item ga item g = Inr (item', g')"
  shows "redrawn ga item item'"
  using mutate_item_cases [OF assms(2)] random_random_range [of g] assms(1)
  by auto

lemma mutate_loop_length:
  "mutate_loop ga its g = Inr (its', g') \<Longrightarrow> length its' = length its"
  by (induction its arbitrary: g its' g') (auto split: sum.splits prod.splits)

lemma mutate_loop_pointwise:
  assumes "mutate_loop ga its g = Inr (its', g')"
    and "\<And>item g item' g'. mutate_item ga item g = Inr (item', g') \<Longrightarrow> P item item'"
  shows "list_all2 P its its'"
  using assms(1)
proof (induction its arbitrary: g its' g')
  case Nil
  then show ?case by simp
next
  case (Cons a its)
  from Cons.prems obtain a' g1 rest where
    a: "mutate_item ga a g = Inr (a', g1)"
    and rest: "mutate_loop ga its g1 = Inr (rest, g')"
    and its': "its' = a' # rest"
    by (auto split: sum.splits prod.splits)
  show ?case
    using Cons.IH [OF rest] assms(2) [OF a] its' by simp
qed

lemma mutate_loop_rate_0:
  "mutation_rate ga \<le> 0 \<Longrightarrow> \<exists>g'. mutate_loop ga its g = Inr (its, g')"
proof (induction its arbitrary: g)
  case Nil
  then show ?case by simp
next
  case (Cons a its)
  obtain g' where "mutate_loop ga its (stl g) = Inr (its, g')"
    using Cons.IH [OF Cons.prems] by blast
  then show ?case
    by (simp add: mutate_item_rate_0 [OF Cons.prems])
qed

lemma mutate_preserves_activities:
  assumes "mutate ga schedule g = Inr (schedule', g')"
  shows "map activity (items schedule') = map activity (items schedule)"
proof -
  from assms obtain its' where
    loop: "mutate_loop ga (items schedule) g = Inr (its', g')"
    and s': "schedule' = new_Schedule its'"
    by (auto simp: mutate_def split: sum.splits prod.splits)
  have "list_all2 (\<lambda>old new. activity new = activity old) (items schedule) its'"
    by (rule mutate_loop_pointwise [OF loop]) (simp add: mutate_item_facets)
  then have "map activity its' = map activity (items schedule)"
    by (induction rule: list_all2_induct) auto
  then show ?thesis
    by (simp add: s' new_Schedule_def)
qed

lemma get_fitness_items: "get_fitness s = Inr (f, s') \<Longrightarrow> items s' = items s"
  by (auto simp: get_fitness_def split: option.splits sum.splits)

lemma get_fitness_total: "\<exists>f s'. get_fitness s = Inr (f, s')"
  using calculate_fitness_total [of "items s"]
  by (auto simp: get_fitness_def split: option.splits)

lemma max_by_fitness_loop_pick:
  "\<exists>r. max_by_fitness_loop rest bf best = Inr r \<and> items r \<in> items ` insert best (set rest)"
proof (induction rest arbitrary: bf best)
  case Nil
  then show ?case by simp
next
  case (Cons a rest)
  obtain f s' where gf: "get_fitness a = Inr (f, s')"
    using get_fitness_total by blast
  have it: "items s' = items a"
    using get_fitness_items [OF gf] .
  show ?case
  proof (cases "f > bf")
    case True
    obtain r where "max_by_fitness_loop rest f s' = Inr r"
      "items r \<in> items ` insert s' (set rest)"
      using Cons.IH by blast
    then show ?thesis using gf True it by auto
  next
    case False
    obtain r where "max_by_fitness_loop rest bf best = Inr r"
      "items r \<in> items ` insert best (set rest)"
      using Cons.IH by blast
    then show ?thesis using gf False by auto
  qed
qed

lemma max_by_fitness_pick:
  assumes "ss \<noteq> []"
  shows "\<exists>r. max_by_fitness ss = Inr r \<and> items r \<in> items ` set ss"
proof -
  obtain a rest where ss: "ss = a # rest"
    using assms by (cases ss) auto
  obtain f s' where gf: "get_fitness a = Inr (f, s')"
    using get_fitness_total by blast
  have it: "items s' = items a"
    using get_fitness_items [OF gf] .
  obtain r where "max_by_fitness_loop rest f s' = Inr r"
    "items r \<in> items ` insert s' (set rest)"
    using max_by_fitness_loop_pick by blast
  then show ?thesis
    using gf it by (auto simp: max_by_fitness_def ss)
qed

lemma sample_pool_subset:
  "k \<le> length pool \<Longrightarrow> set (fst (sample_pool pool k g)) \<subseteq> set pool"
proof (induction k arbitrary: pool g)
  case 0
  then show ?case by simp
next
  case (Suc k)
  let ?j = "shd g mod length pool"
  let ?pool' = "butlast (pool[?j := last pool])"
  have ne: "pool \<noteq> []" using Suc.prems by auto
  then have j: "?j < length pool" by simp
  have sub: "set ?pool' \<subseteq> set pool"
  proof
    fix x assume "x \<in> set ?pool'"
    then have "x \<in> set (pool[?j := last pool])" by (rule in_set_butlastD)
    then have "x \<in> insert (last pool) (set pool)"
      using set_update_subset_insert by fastforce
    then show "x \<in> set pool" using ne by auto
  qed
  have "k \<le> length ?pool'" using Suc.prems by simp
  from Suc.IH [OF this] have "set (fst (sample_pool ?pool' k (stl g))) \<subseteq> set pool"
    using sub by blast
  then show ?case using j by (simp add: Let_def)
qed

lemma sample_pool_length: "length (fst (sample_pool pool k g)) = k"
  by (induction k arbitrary: pool g) (simp_all add: Let_def)

lemma select_parent_small: "length pop < 5 \<Longrightarrow> select_parent pop g = Inl ValueError"
  by (simp add: select_parent_def random_sample_def)

lemma select_parent_pick:
  assumes "5 \<le> length pop"
  shows "\<exists>s g'. select_parent pop g = Inr (s, g') \<and> items s \<in> items ` set pop"
proof -
  let ?t = "fst (sample_pool pop 5 g)"
  have rs: "random_sample pop 5 g = Inr (?t, snd (sample_pool pop 5 g))"
    using assms by (simp add: random_sample_def)
  have "length ?t = 5" by (rule sample_pool_length)
  then have ne: "?t \<noteq> []" by auto
  obtain r where r: "max_by_fitness ?t = Inr r" "items r \<in> items ` set ?t"
    using max_by_fitness_pick [OF ne] by blast
  have "set ?t \<subseteq> set pop" using assms by (rule sample_pool_subset)
  then have "items r \<in> items ` set pop" using r(2) by blast
  then show ?thesis
    using r(1) assms by (simp add: select_parent_def random_sample_def case_prod_beta)
qed

lemma select_parent_Inr:
  assumes "select_parent pop g = Inr (s, g')"
  shows "items s \<in> items ` set pop \<and> 5 \<le> length pop"
proof -
  have five: "5 \<le> length pop"
    using assms select_parent_small [of pop g] by (cases "length pop < 5") auto
  from select_parent_pick [OF five, of g] assms show ?thesis
    using five by auto
qed

lemma make_child_small:
  "length (population ga) < 5 \<Longrightarrow> make_child ga g = Inl ValueError"
  by (simp add: make_child_def select_parent_small)

lemma make_child_follows:
  assumes "make_child ga g = Inr (child, g')"
    and "\<forall>s \<in> set (population ga). follows_activities (activities ga) s"
  shows "follows_activities (activities ga) child"
proof -
  from assms(1) obtain p1 g1 p2 g2 c g3 where
    s1: "select_parent (population ga) g = Inr (p1, g1)"
    and s2: "select_parent (population ga) g1 = Inr (p2, g2)"
    and cx: "crossover ga p1 p2 g2 = Inr (c, g3)"
    and mu: "mutate ga c g3 = Inr (child, g')"
    by (auto simp: make_child_def split: sum.splits prod.splits)
  have "map activity (items p1) = activities ga" "map activity (items p2) = activities ga"
    using select_parent_Inr [OF s1] select_parent_Inr [OF s2] assms(2)
    by (auto simp: follows_activities_def)
  then have "map activity (items c) = activities ga"
    by (rule crossover_preserves_activities [OF cx])
  then show ?thesis
    using mutate_preserves_activities [OF mu] by (simp add: follows_activities_def)
qed

lemma breed_follows:
  assumes "breed ga newp g = Inr (pop', g')"
    and "\<forall>s \<in> set (population ga). follows_activities (activities ga) s"
    and "\<forall>s \<in> set newp. follows_activities (activities ga) s"
  shows "\<forall>s \<in> set pop'. follows_activities (activities ga) s"
  using assms
proof (induction ga newp g rule: breed.induct)
  case (1 ga newp g)
  show ?case
  proof (cases "int (length newp) < population_size ga")
    case False
    then have "pop' = newp"
      using "1.prems"(1) by (simp add: breed.simps [of ga newp g])
    then show ?thesis using "1.prems"(3) by simp
  next
    case True
    from "1.prems"(1) True obtain child g1 where
      mc: "make_child ga g = Inr (child, g1)"
      and rec: "breed ga (newp @ [child]) g1 = Inr (pop', g')"
      by (subst (asm) breed.simps) (auto split: sum.splits prod.splits)
    have "follows_activities (activities ga) child"
      using make_child_follows [OF mc "1.prems"(2)] .
    then have "\<forall>s \<in> set (newp @ [child]). follows_activities (activities ga) s"
      using "1.prems"(3) by simp
    from "1.IH" [OF True mc refl rec "1.prems"(2) this] show ?thesis .
  qed
qed

lemma fitnesses_of_items:
  "fitnesses_of pop = Inr (fs, pop') \<Longrightarrow>
     map items pop' = map items pop \<and> length fs = length pop"
proof (induction pop arbitrary: fs pop')
  case Nil
  then show ?case by simp
next
  case (Cons s pop)
  from Cons.prems obtain f s' fs' rest' where
    gf: "get_fitness s = Inr (f, s')"
    and rest: "fitnesses_of pop = Inr (fs', rest')"
    and eq: "fs = f # fs'" "pop' = s' # rest'"
    by (auto split: sum.splits prod.splits)
  show ?case
    using Cons.IH [OF rest] get_fitness_items [OF gf] eq by simp
qed

lemma assess_generation_Inr:
  assumes "assess_generation gen thr ga ah bh = Inr (stop, ga1, ah', bh')"
  shows "\<exists>pop'. ga1 = ga\<lparr>population := pop'\<rparr> \<and> map items pop' = map items (population ga)
           \<and> length ah' = Suc (length ah) \<and> length bh' = Suc (length bh)"
  using assms
  by (auto simp: assess_generation_def Let_def fitnesses_of_items
      split: sum.splits prod.splits if_splits)

lemma follows_map_items:
  "map items pop' = map items pop \<Longrightarrow>
   (\<forall>s \<in> set pop'. follows_activities acts s) = (\<forall>s \<in> set pop. follows_activities acts s)"
proof -
  assume "map items pop' = map items pop"
  then have "items ` set pop' = items ` set pop"
    by (metis set_map)
  then show ?thesis
    unfolding follows_activities_def by (metis (no_types, lifting) image_iff)
qed

lemma evolve_loop_follows:
  assumes "evolve_loop thr generations gen ga ah bh g = Inr (ga', ah', bh', g')"
    and "\<forall>s \<in> set (population ga). follows_activities (activities ga) s"
  shows "(\<forall>s \<in> set (population ga'). follows_activities (activities ga) s)
       \<and> activities ga' = activities ga"
  using assms
proof (induction thr generations gen ga ah bh g rule: evolve_loop.induct)
  case (1 thr generations gen ga ah bh g)
  show ?case
  proof (cases "gen < generations")
    case False
    then have "ga' = ga"
      using "1.prems"(1) by (simp add: evolve_loop.simps [of thr generations gen])
    then show ?thesis using "1.prems"(2) by simp
  next
    case True
    from "1.prems"(1) True obtain stop ga1 ah1 bh1 where
      as: "assess_generation gen thr ga ah bh = Inr (stop, ga1, ah1, bh1)"
      by (subst (asm) evolve_loop.simps) (auto split: sum.splits prod.splits)
    from assess_generation_Inr [OF as] obtain pop1 where
      ga1: "ga1 = ga\<lparr>population := pop1\<rparr>" and m: "map items pop1 = map items (population ga)"
      by blast
    have f1: "\<forall>s \<in> set (population ga1). follows_activities (activities ga1) s"
      using follows_map_items [OF m] "1.prems"(2) by (simp add: ga1)
    have a1: "activities ga1 = activities ga" by (simp add: ga1)
    show ?thesis
    proof (cases stop)
      case True
      then have "ga' = ga1"
        using "1.prems"(1) \<open>gen < generations\<close> as
        by (subst (asm) evolve_loop.simps) simp
      then show ?thesis using f1 a1 by simp
    next
      case False
      from "1.prems"(1) \<open>gen < generations\<close> as False obtain newp g1 where
        br: "breed ga1 [] g = Inr (newp, g1)"
        and rec: "evolve_loop thr generations (Suc gen) (ga1\<lparr>population := newp\<rparr>) ah1 bh1 g1
                    = Inr (ga', ah', bh', g')"
        by (subst (asm) evolve_loop.simps) (auto split: sum.splits prod.splits)
      have "\<forall>s \<in> set newp. follows_activities (activities ga1) s"
        using breed_follows [OF br f1] by simp
      then have f2: "\<forall>s \<in> set (population (ga1\<lparr>population := newp\<rparr>)).
          follows_activities (activities (ga1\<lparr>population := newp\<rparr>)) s"
        by simp
      from "1.IH" [OF \<open>gen < generations\<close> as refl refl refl False br refl rec f2]
      show ?thesis using a1 by simp
    qed
  qed
qed

lemma evolve_follows:
  assumes "evolve ga generations thr g = Inr (best, ga', g')"
    and "\<forall>s \<in> set (population ga). follows_activities (activities ga) s"
  shows "follows_activities (activities ga) best
       \<and> (\<forall>s \<in> set (population ga'). follows_activities (activities ga) s)"
proof -
  from assms(1) obtain ah bh where
    loop: "evolve_loop thr (nat generations) 0 ga [] [] g = Inr (ga', ah, bh, g')"
    and mx: "max_by_fitness (population ga') = Inr best"
    by (auto simp: evolve_def split: sum.splits prod.splits)
  have f: "\<forall>s \<in> set (population ga'). follows_activities (activities ga) s"
    using evolve_loop_follows [OF loop assms(2)] by simp
  have ne: "population ga' \<noteq> []"
    using mx by (auto simp: max_by_fitness_def)
  from max_by_fitness_pick [OF ne] mx have "items best \<in> items ` set (population ga')"
    by auto
  then have "follows_activities (activities ga) best"
    using f by (auto simp: follows_activities_def)
  then show ?thesis using f by simp
qed


lemma cut_of_draw_bij:
  assumes "2 \<le> (K::nat)"
  shows "bij_betw (\<lambda>r. 1 + r mod (K - 1)) {..<K - 1} {1..K - 1}"
proof (rule bij_betw_byWitness [where f' = "\<lambda>c. c - 1"])
  show "\<forall>r \<in> {..<K - 1}. 1 + r mod (K - 1) - 1 = r"
    by auto
  show "\<forall>c \<in> {1..K - 1}. 1 + (c - 1) mod (K - 1) = c"
    using assms by auto
  show "(\<lambda>r. 1 + r mod (K - 1)) ` {..<K - 1} \<subseteq> {1..K - 1}"
    by auto
  show "(\<lambda>c. c - 1) ` {1..K - 1} \<subseteq> {..<K - 1}"
    using assms by auto
qed

section \<open>Lemmas on the deep copy\<close>

lemma deepcopy_frame:
  "deepcopy_items refs memo h = (new, memo', h1) \<Longrightarrow>
     next_addr h \<le> next_addr h1 \<and> (\<forall>a < next_addr h. cell h1 a = cell h a)"
proof (induction refs arbitrary: memo h new memo' h1)
  case Nil
  then show ?case by simp
next
  case (Cons a refs)
  show ?case
  proof (cases "memo a")
    case (Some a')
    with Cons.prems obtain new' where "deepcopy_items refs memo h = (new', memo', h1)"
      by (auto simp: Let_def prod_eq_iff)
    from Cons.IH [OF this] show ?thesis .
  next
    case None
    let ?h = "h\<lparr>cell := (cell h)(next_addr h := cell h a), next_addr := Suc (next_addr h)\<rparr>"
    from None Cons.prems obtain new' where
      "deepcopy_items refs (memo(a \<mapsto> next_addr h)) ?h = (new', memo', h1)"
      by (auto simp: Let_def prod_eq_iff)
    from Cons.IH [OF this] show ?thesis by auto
  qed
qed

lemma deepcopy_copies:
  assumes "deepcopy_items refs memo h = (new, memo', h1)"
    and "memo_ok n0 memo h" and "\<forall>a \<in> set refs. a < n0" and "n0 \<le> next_addr h"
  shows "map (cell h1) new = map (cell h) refs \<and> (\<forall>a' \<in> set new. n0 \<le> a' \<and> a' < next_addr h1)
       \<and> length new = length refs"
  using assms
proof (induction refs arbitrary: memo h new memo' h1)
  case Nil
  then show ?case by simp
next
  case (Cons a refs)
  show ?case
  proof (cases "memo a")
    case (Some a')
    with Cons.prems(1) obtain new' where
      rec: "deepcopy_items refs memo h = (new', memo', h1)" and new: "new = a' # new'"
      by (auto simp: Let_def prod_eq_iff)
    have a': "a < n0" "n0 \<le> a'" "a' < next_addr h" "cell h a' = cell h a"
      using Cons.prems(2) Some by (auto simp: memo_ok_def)
    have fr: "next_addr h \<le> next_addr h1" "\<forall>b < next_addr h. cell h1 b = cell h b"
      using deepcopy_frame [OF rec] by auto
    have "cell h1 a' = cell h a" using fr a' by simp
    moreover have "a' < next_addr h1" using fr a' by simp
    ultimately show ?thesis
      using Cons.IH [OF rec Cons.prems(2) _ Cons.prems(4)] Cons.prems(3) new a' by simp
  next
    case None
    let ?a' = "next_addr h"
    let ?h = "h\<lparr>cell := (cell h)(?a' := cell h a), next_addr := Suc ?a'\<rparr>"
    from None Cons.prems(1) obtain new' where
      rec: "deepcopy_items refs (memo(a \<mapsto> ?a')) ?h = (new', memo', h1)"
      and new: "new = ?a' # new'"
      by (auto simp: Let_def prod_eq_iff)
    have a: "a < n0" using Cons.prems(3) by simp
    have ok: "memo_ok n0 (memo(a \<mapsto> ?a')) ?h"
      unfolding memo_ok_def
    proof (intro allI impI)
      fix b b' assume m: "(memo(a \<mapsto> ?a')) b = Some b'"
      show "b < n0 \<and> n0 \<le> b' \<and> b' < next_addr ?h \<and> cell ?h b' = cell ?h b"
      proof (cases "b = a")
        case True
        then have "b' = ?a'" using m by simp
        then show ?thesis using True a Cons.prems(4) by simp
      next
        case False
        then have "memo b = Some b'" using m by simp
        then have "b < n0" "n0 \<le> b'" "b' < next_addr h" "cell h b' = cell h b"
          using Cons.prems(2) by (auto simp: memo_ok_def)
        then show ?thesis using Cons.prems(4) by simp
      qed
    qed
    have fr: "next_addr ?h \<le> next_addr h1" "\<forall>b < next_addr ?h. cell h1 b = cell ?h b"
      using deepcopy_frame [OF rec] by auto
    have c: "cell h1 ?a' = cell h a" using fr by simp
    have r: "map (cell ?h) refs = map (cell h) refs"
      using Cons.prems(3,4) by auto
    have n: "n0 \<le> next_addr ?h" using Cons.prems(4) by simp
    have "\<forall>b \<in> set refs. b < n0" using Cons.prems(3) by simp
    from Cons.IH [OF rec ok this n] show ?thesis
      using new c r fr(1) Cons.prems(4) by simp
  qed
qed

lemma deepcopy_distinct:
  assumes "deepcopy_items refs memo h = (new, memo', h1)"
    and "distinct refs" and "\<forall>a \<in> set refs. memo a = None"
  shows "new = [next_addr h ..< next_addr h + length refs]"
  using assms
proof (induction refs arbitrary: memo h new memo' h1)
  case Nil
  then show ?case by simp
next
  case (Cons a refs)
  let ?a' = "next_addr h"
  let ?h = "h\<lparr>cell := (cell h)(?a' := cell h a), next_addr := Suc ?a'\<rparr>"
  have None: "memo a = None" using Cons.prems(3) by simp
  from None Cons.prems(1) obtain new' where
    rec: "deepcopy_items refs (memo(a \<mapsto> ?a')) ?h = (new', memo', h1)"
    and new: "new = ?a' # new'"
    by (auto simp: Let_def prod_eq_iff)
  have "\<forall>b \<in> set refs. (memo(a \<mapsto> ?a')) b = None"
    using Cons.prems(2,3) by auto
  from Cons.IH [OF rec _ this] Cons.prems(2) have n': "new' = [Suc ?a' ..< Suc ?a' + length refs]"
    by simp
  have "[?a' ..< ?a' + length (a # refs)] = ?a' # [Suc ?a' ..< ?a' + length (a # refs)]"
    by (rule upt_conv_Cons) simp
  also have "\<dots> = ?a' # [Suc ?a' ..< Suc ?a' + length refs]"
    by (simp del: upt_Suc)
  finally show ?case
    using new n' by (simp del: upt_Suc)
qed

lemma mutate_refs_frame:
  "mutate_refs ga refs h g = Inr (h', g') \<Longrightarrow>
     next_addr h' = next_addr h \<and> (\<forall>a. a \<notin> set refs \<longrightarrow> cell h' a = cell h a)"
proof (induction refs arbitrary: h g)
  case Nil
  then show ?case by simp
next
  case (Cons a refs)
  from Cons.prems obtain item' g1 where
    mi: "mutate_item ga (cell h a) g = Inr (item', g1)"
    and rec: "mutate_refs ga refs (h\<lparr>cell := (cell h)(a := item')\<rparr>) g1 = Inr (h', g')"
    by (auto split: sum.splits prod.splits)
  from Cons.IH [OF rec] show ?case by auto
qed

lemma mutate_refs_distinct:
  assumes "mutate_refs ga refs h g = Inr (h', g')" and "distinct refs"
  shows "mutate_loop ga (map (cell h) refs) g = Inr (map (cell h') refs, g')"
  using assms
proof (induction refs arbitrary: h g)
  case Nil
  then show ?case by simp
next
  case (Cons a refs)
  let ?h = "\<lambda>item'. h\<lparr>cell := (cell h)(a := item')\<rparr>"
  from Cons.prems(1) obtain item' g1 where
    mi: "mutate_item ga (cell h a) g = Inr (item', g1)"
    and rec: "mutate_refs ga refs (?h item') g1 = Inr (h', g')"
    by (auto split: sum.splits prod.splits)
  have na: "a \<notin> set refs" and d: "distinct refs" using Cons.prems(2) by auto
  have same: "map (cell (?h item')) refs = map (cell h) refs"
    using na by auto
  have "cell h' a = cell (?h item') a"
    using mutate_refs_frame [OF rec] na by blast
  then have a': "cell h' a = item'" by simp
  from Cons.IH [OF rec d] have "mutate_loop ga (map (cell h) refs) g1 = Inr (map (cell h') refs, g')"
    unfolding same .
  then show ?case
    using mi a' by simp
qed

lemma mutate_refs_rate_0:
  "mutation_rate ga \<le> 0 \<Longrightarrow> \<exists>g'. mutate_refs ga refs h g = Inr (h, g')"
proof (induction refs arbitrary: g)
  case Nil
  then show ?case by simp
next
  case (Cons a refs)
  have "h\<lparr>cell := (cell h)(a := cell h a)\<rparr> = h" by simp
  then show ?case
    using Cons.IH [OF Cons.prems] by (simp add: mutate_item_rate_0 [OF Cons.prems])
qed

lemma mutate_heap_parts:
  assumes "mutate_heap ga item_refs h g = Inr (new_items, h', g')"
  obtains memo' h1 where
    "deepcopy_items item_refs Map.empty h = (new_items, memo', h1)"
    "mutate_refs ga new_items h1 g = Inr (h', g')"
proof -
  obtain n m h1 where dc: "deepcopy_items item_refs Map.empty h = (n, m, h1)"
    by (cases "deepcopy_items item_refs Map.empty h") auto
  from assms have "n = new_items" "mutate_refs ga new_items h1 g = Inr (h', g')"
    by (auto simp: mutate_heap_def dc Let_def split: sum.splits prod.splits)
  with dc that show ?thesis by blast
qed

section \<open>Lemmas on the generation loop\<close>

lemma py_index_last:
  "xs \<noteq> [] \<Longrightarrow> py_index xs (- 1) = Inr (last xs)"
  by (cases xs rule: rev_cases) (auto simp: py_index_def nth_append)

lemma py_index_back:
  "100 \<le> length xs \<Longrightarrow> py_index xs (- 100) = Inr (xs ! (length xs - 100))"
  by (auto simp: py_index_def nat_diff_distrib' intro!: arg_cong [where f = "nth xs"])

lemma improvement_of_eq:
  assumes "100 \<le> length h"
  shows "improvement_of h =
     (if h ! (length h - 100) = 0 then Inl ZeroDivisionError
      else Inr ((last h - h ! (length h - 100)) / \<bar>h ! (length h - 100)\<bar>))"
proof -
  have ne: "h \<noteq> []" using assms by auto
  show ?thesis
    by (simp add: improvement_of_def py_index_last [OF ne] py_index_back [OF assms])
qed

lemma convergence_check_eq:
  assumes "100 \<le> gen" "length h = Suc gen"
  shows "convergence_check gen h thr =
     (if h ! (gen - 99) = 0 then Inl ZeroDivisionError
      else Inr ((h ! gen - h ! (gen - 99)) / \<bar>h ! (gen - 99)\<bar> < thr))"
proof -
  have l: "100 \<le> length h" using assms by simp
  have i: "length h - 100 = gen - 99" using assms by simp
  have ne: "h \<noteq> []" using assms by auto
  have la: "last h = h ! gen" using assms ne by (simp add: last_conv_nth)
  show ?thesis
    using assms(1) by (simp add: convergence_check_def improvement_of_eq [OF l] i la)
qed

lemma convergence_check_early: "gen < 100 \<Longrightarrow> convergence_check gen h thr = Inr False"
  by (simp add: convergence_check_def)

lemma get_fitness_settled:
  assumes "items s = its" "fitness_cache s = None \<or> fitness_cache s = Some F"
    "calculate_fitness its = Inr F"
  shows "get_fitness s = Inr (F, s\<lparr>fitness_cache := Some F\<rparr>)"
  using assms by (auto simp: get_fitness_def)

lemma fitnesses_of_settled:
  assumes "\<forall>s \<in> set pop. items s = its \<and> (fitness_cache s = None \<or> fitness_cache s = Some F)"
    "calculate_fitness its = Inr F"
  shows "fitnesses_of pop
           = Inr (replicate (length pop) F, map (\<lambda>s. s\<lparr>fitness_cache := Some F\<rparr>) pop)"
  using assms(1)
proof (induction pop)
  case Nil
  then show ?case by simp
next
  case (Cons s pop)
  have "get_fitness s = Inr (F, s\<lparr>fitness_cache := Some F\<rparr>)"
    using Cons.prems assms(2) by (intro get_fitness_settled) auto
  then show ?case using Cons by simp
qed

lemma py_max_replicate: "0 < n \<Longrightarrow> py_max (replicate n F) = Inr F"
proof -
  have f: "fold (\<lambda>v m. if v > m then v else m) (replicate k F) F = F" for k
    by (induction k) (simp_all del: fold_replicate)
  assume "0 < n"
  then obtain k where "n = Suc k" by (cases n) auto
  then show ?thesis by (simp add: py_max_def f del: fold_replicate)
qed

lemma avg_replicate: "0 < n \<Longrightarrow> sum_list (replicate n F) / of_nat n = (F::rat)"
  by (simp add: sum_list_replicate)

lemma settled_cached: "settled its F ga \<Longrightarrow> settled its F (cached F ga)"
  by (auto simp: settled_def cached_def)

lemma assess_settled:
  assumes "settled its F ga"
  shows "assess_generation gen thr ga ah bh =
     (case convergence_check gen (ah @ [F]) thr of
        Inl e \<Rightarrow> Inl e
      | Inr stop \<Rightarrow> Inr (stop, cached F ga, ah @ [F], bh @ [F]))"
proof -
  have pos: "0 < length (population ga)" using assms by (auto simp: settled_def)
  have fo: "fitnesses_of (population ga)
           = Inr (replicate (length (population ga)) F,
                  map (\<lambda>s. s\<lparr>fitness_cache := Some F\<rparr>) (population ga))"
    using assms by (intro fitnesses_of_settled [where its = its]) (auto simp: settled_def)
  have ne: "replicate (length (population ga)) F \<noteq> []" using pos by simp
  show ?thesis
    unfolding assess_generation_def fo
    using pos ne
    by (simp add: py_max_replicate avg_replicate cached_def Let_def split: sum.splits)
qed

lemma make_child_settled:
  assumes "settled its F ga"
  shows "\<exists>g'. make_child ga g = Inr (new_Schedule its, g')"
proof -
  have five: "5 \<le> length (population ga)" and K: "2 \<le> length (activities ga)"
    and rate: "mutation_rate ga \<le> 0"
    and all: "\<forall>s \<in> set (population ga). items s = its"
    using assms by (auto simp: settled_def)
  obtain p1 g1 where s1: "select_parent (population ga) g = Inr (p1, g1)"
    and i1: "items p1 \<in> items ` set (population ga)"
    using select_parent_pick [OF five] by blast
  obtain p2 g2 where s2: "select_parent (population ga) g1 = Inr (p2, g2)"
    and i2: "items p2 \<in> items ` set (population ga)"
    using select_parent_pick [OF five] by blast
  have e1: "items p1 = its" and e2: "items p2 = its"
    using i1 i2 all by auto
  have K1: "(1::int) \<le> int (length (activities ga)) - 1" using K by simp
  obtain c where cx: "crossover ga p1 p2 g2
      = Inr (new_Schedule (take c (items p1) @ drop c (items p2)), stl g2)"
    unfolding crossover_def random_randint_Inr [OF K1] by simp
  then have cx': "crossover ga p1 p2 g2 = Inr (new_Schedule its, stl g2)"
    by (simp add: e1 e2)
  obtain g4 where ml: "mutate_loop ga its (stl g2) = Inr (its, g4)"
    using mutate_loop_rate_0 [OF rate] by blast
  have mu: "mutate ga (new_Schedule its) (stl g2) = Inr (new_Schedule its, g4)"
    by (simp add: mutate_def new_Schedule_def ml)
  show ?thesis
    by (simp add: make_child_def s1 s2 cx' mu)
qed

lemma breed_settled:
  assumes "settled its F ga"
    and "newp = replicate k (new_Schedule its)"
    and "int k \<le> population_size ga"
  shows "\<exists>g'. breed ga newp g
           = Inr (replicate (nat (population_size ga)) (new_Schedule its), g')"
  using assms
proof (induction ga newp g arbitrary: k rule: breed.induct)
  case (1 ga newp g)
  show ?case
  proof (cases "int (length newp) < population_size ga")
    case False
    then have "k = nat (population_size ga)"
      using "1.prems"(2,3) by simp
    then have "newp = replicate (nat (population_size ga)) (new_Schedule its)"
      using "1.prems"(2) by simp
    moreover have "breed ga newp g = Inr (newp, g)"
      using False by (simp add: breed.simps [of ga newp g])
    ultimately show ?thesis by simp
  next
    case True
    obtain g1 where mc: "make_child ga g = Inr (new_Schedule its, g1)"
      using make_child_settled [OF "1.prems"(1)] by blast
    have n: "newp @ [new_Schedule its] = replicate (Suc k) (new_Schedule its)"
      using "1.prems"(2) by (simp add: replicate_append_same)
    have k: "int (Suc k) \<le> population_size ga"
      using True "1.prems"(2) by simp
    from "1.IH" [OF True mc refl "1.prems"(1) n k]
    obtain g' where "breed ga (newp @ [new_Schedule its]) g1
           = Inr (replicate (nat (population_size ga)) (new_Schedule its), g')"
      by blast
    then show ?thesis
      using True mc by (subst breed.simps) simp
  qed
qed

lemma settled_next: "settled its F ga \<Longrightarrow> settled its F (next_generation its ga)"
  by (auto simp: settled_def next_generation_def new_Schedule_def)

lemma evolve_loop_step_settled:
  assumes "settled its F ga" "gen < generations"
    "convergence_check gen (ah @ [F]) thr = Inr False"
  shows "\<exists>g'. evolve_loop thr generations gen ga ah bh g =
     evolve_loop thr generations (Suc gen) (next_generation its (cached F ga))
       (ah @ [F]) (bh @ [F]) g'"
proof -
  have sc: "settled its F (cached F ga)" using assms(1) by (rule settled_cached)
  obtain g' where br: "breed (cached F ga) [] g
      = Inr (replicate (nat (population_size (cached F ga))) (new_Schedule its), g')"
    using breed_settled [OF sc, of "[]" 0 g] sc by (auto simp: settled_def)
  show ?thesis
    using assms(2)
    by (subst evolve_loop.simps)
       (auto simp: assess_settled [OF assms(1)] assms(3) br next_generation_def intro!: exI [of _ g'])
qed

lemma evolve_loop_settled_zero:
  assumes "settled its 0 ga" "gen \<le> 100" "100 < generations" "ah = replicate gen 0"
  shows "evolve_loop thr generations gen ga ah bh g = Inl ZeroDivisionError"
  using assms
proof (induction "100 - gen" arbitrary: gen ga ah bh g)
  case 0
  then have gen: "gen = 100" by simp
  have "convergence_check 100 (replicate 100 0 @ [0]) thr = Inl ZeroDivisionError"
    by (subst convergence_check_eq) (simp_all add: nth_append)
  then show ?case
    using "0.prems" gen
    by (subst evolve_loop.simps) (simp add: assess_settled [OF "0.prems"(1)])
next
  case (Suc n)
  then have lt: "gen < 100" by simp
  have cc: "convergence_check gen (ah @ [0]) thr = Inr False"
    using lt by (rule convergence_check_early)
  have g: "gen < generations" using lt Suc.prems by simp
  obtain g' where st: "evolve_loop thr generations gen ga ah bh g =
     evolve_loop thr generations (Suc gen) (next_generation its (cached 0 ga))
       (ah @ [0]) (bh @ [0]) g'"
    using evolve_loop_step_settled [OF Suc.prems(1) g cc] by blast
  have s': "settled its 0 (next_generation its (cached 0 ga))"
    using Suc.prems(1) by (intro settled_next settled_cached)
  have ah': "ah @ [0] = replicate (Suc gen) 0"
    using Suc.prems(4) by (simp add: replicate_append_same)
  have "n = 100 - Suc gen" using Suc.hyps(2) by simp
  from Suc.hyps(1) [OF this s' _ Suc.prems(3) ah'] lt
  show ?case unfolding st by simp
qed

lemma hist_snoc:
  "1 \<le> gen \<Longrightarrow> (a0 # replicate (gen - 1) F) @ [F] = a0 # replicate gen F"
  by (cases gen) (simp_all add: replicate_append_same)

lemma evolve_loop_settled_stop:
  assumes "settled its F ga" "1 \<le> gen" "gen \<le> 100" "100 < generations"
    "ah = a0 # replicate (gen - 1) F" "F \<noteq> 0" "0 < thr"
  shows "\<exists>ga' bh' g'. evolve_loop thr generations gen ga ah bh g
           = Inr (ga', a0 # replicate 100 F, bh', g')"
  using assms
proof (induction "100 - gen" arbitrary: gen ga ah bh g)
  case 0
  then have gen: "gen = 100" by simp
  have h: "ah @ [F] = a0 # replicate 100 F"
    using hist_snoc [of 100 a0 F] "0.prems"(5) gen by simp
  have "convergence_check 100 (a0 # replicate 100 F) thr = Inr True"
    using "0.prems"(6,7) by (subst convergence_check_eq) simp_all
  then show ?case
    using "0.prems" gen h
    by (subst evolve_loop.simps) (simp add: assess_settled [OF "0.prems"(1)])
next
  case (Suc n)
  then have lt: "gen < 100" by simp
  have cc: "convergence_check gen (ah @ [F]) thr = Inr False"
    using lt by (rule convergence_check_early)
  have g: "gen < generations" using lt Suc.prems by simp
  obtain g' where st: "evolve_loop thr generations gen ga ah bh g =
     evolve_loop thr generations (Suc gen) (next_generation its (cached F ga))
       (ah @ [F]) (bh @ [F]) g'"
    using evolve_loop_step_settled [OF Suc.prems(1) g cc] by blast
  have s': "settled its F (next_generation its (cached F ga))"
    using Suc.prems(1) by (intro settled_next settled_cached)
  have ah': "ah @ [F] = a0 # replicate (Suc gen - 1) F"
    using hist_snoc [OF Suc.prems(2), of a0 F] Suc.prems(5) by simp
  have "n = 100 - Suc gen" using Suc.hyps(2) by simp
  from Suc.hyps(1) [OF this s' _ _ Suc.prems(4) ah' Suc.prems(6,7)] lt
  show ?case unfolding st by simp
qed


text \<open>What the constructor lets through fails in the first generation: a population
  smaller than the tournament raises \<open>ValueError\<close> in \<open>select_parent\<close>, an empty one
  \<open>ZeroDivisionError\<close> in the average.\<close>

lemma breed_small:
  assumes "length (population ga) < 5" "int (length newp) < population_size ga"
  shows "breed ga newp g = Inl ValueError"
  using assms by (subst breed.simps) (simp add: make_child_small)

lemma small_population_fails_mid_run:
  assumes "population ga \<noteq> []" and "length (population ga) < 5"
    and "0 < population_size ga" and "0 < generations"
  shows "evolve ga generations thr g = Inl ValueError"
proof -
  obtain fs pop' where fo: "fitnesses_of (population ga) = Inr (fs, pop')"
  proof -
    have "\<exists>fs pop'. fitnesses_of pop = Inr (fs, pop')" for pop
    proof (induction pop)
      case Nil
      then show ?case by simp
    next
      case (Cons s pop)
      obtain f s' where "get_fitness s = Inr (f, s')" using get_fitness_total by blast
      with Cons show ?case by auto
    qed
    then show ?thesis using that by blast
  qed
  have len: "length fs = length (population ga)" "map items pop' = map items (population ga)"
    using fitnesses_of_items [OF fo] by auto
  have ne: "fs \<noteq> []" using len assms(1) by auto
  obtain b where mx: "py_max fs = Inr b"
    using ne by (cases fs) (auto simp: py_max_def)
  have lp: "length pop' < 5"
    using len(2) assms(2) by (metis length_map)
  have as: "assess_generation 0 thr ga [] [] =
      Inr (False, ga\<lparr>population := pop'\<rparr>, [sum_list fs / of_nat (length fs)], [b])"
    using ne by (simp add: assess_generation_def fo mx Let_def convergence_check_def)
  have br: "breed (ga\<lparr>population := pop'\<rparr>) [] g = Inl ValueError"
    using lp assms(3) by (intro breed_small) simp_all
  have "evolve_loop thr (nat generations) 0 ga [] [] g = Inl ValueError"
    using assms(4) by (subst evolve_loop.simps) (simp add: as br)
  then show ?thesis by (simp add: evolve_def)
qed

lemma empty_population_fails_mid_run:
  assumes "population ga = []" and "0 < generations"
  shows "evolve ga generations thr g = Inl ZeroDivisionError"
proof -
  have as: "assess_generation 0 thr ga [] [] = Inl ZeroDivisionError"
    by (simp add: assess_generation_def assms(1))
  have "evolve_loop thr (nat generations) 0 ga [] [] g = Inl ZeroDivisionError"
    using assms(2) by (subst evolve_loop.simps) (simp add: as)
  then show ?thesis by (simp add: evolve_def)
qed

section \<open>Two complete runs\<close>

lemmas tiny_defs = big_class_def tiny_acts_def tiny_rooms_def tiny_slots_def booking_def
  mk_activity_def mk_room_def mk_time_slot_def

lemmas fitness_defs = calculate_fitness_def build_tables_def tally_def item_fitness_def
  room_conflicts_def room_size_check_def facilitator_preference_def slot_load_def
  total_load_def paired_section_def consecutive_slots_def str_TimeSlot_def fmt_02d_def
  dec_digits.simps Let_def

lemma fitness_zero_items: "calculate_fitness zero_items = Inr 0"
  by (simp add: zero_items_def tiny_defs fitness_defs)

lemma fitness_best_items: "calculate_fitness best_items = Inr (4/5)"
  by (simp add: best_items_def tiny_defs fitness_defs)

lemma fitness_worst_items: "calculate_fitness worst_items = Inr (- (34/5))"
  by (simp add: worst_items_def tiny_defs fitness_defs)

lemma draw_zero_items:
  "random_schedule_items (tiny_ga pop) tiny_acts (zero_draws @- g)
     = Inr (zero_items, g)"
  by (simp add: zero_draws_def tiny_ga_def tiny_acts_def zero_items_def booking_def random_choice_def
      tiny_rooms_def tiny_slots_def)

lemma draw_best_items:
  "random_schedule_items (tiny_ga pop) tiny_acts (best_draws @- g)
     = Inr (best_items, g)"
  by (simp add: best_draws_def tiny_ga_def tiny_acts_def best_items_def booking_def random_choice_def
      tiny_rooms_def tiny_slots_def)

lemma draw_worst_items:
  "random_schedule_items (tiny_ga pop) tiny_acts (sconst 0) = Inr (worst_items, sconst 0)"
  by (simp add: tiny_ga_def tiny_acts_def worst_items_def booking_def random_choice_def
      tiny_rooms_def tiny_slots_def)

lemma tiny_ga_sel [simp]:
  "activities (tiny_ga pop) = tiny_acts" "population_size (tiny_ga pop) = 5"
  "population (tiny_ga pop) = pop" "mutation_rate (tiny_ga pop) = 0"
  "(tiny_ga pop)\<lparr>population := pop'\<rparr> = tiny_ga pop'"
  by (simp_all add: tiny_ga_def)

lemma five: "(5::nat) = Suc (Suc (Suc (Suc (Suc 0))))"
  by simp

lemma init_zero:
  "GeneticAlgorithm_init tiny_acts tiny_rooms tiny_slots [''Shaw''] 5 0 zero_tape
     = Inr (tiny_ga (replicate 5 (new_Schedule zero_items)), sconst 0)"
proof -
  have "population_loop (tiny_ga []) 5 zero_tape
      = Inr (replicate 5 (new_Schedule zero_items), sconst 0)"
    unfolding zero_tape_def five
    by (simp add: draw_zero_items del: shift.simps shift_simps)
  then show ?thesis
    by (simp add: GeneticAlgorithm_init_def initialize_population_def tiny_ga_def)
qed

lemma init_best:
  "GeneticAlgorithm_init tiny_acts tiny_rooms tiny_slots [''Shaw''] 5 0 best_tape
     = Inr (tiny_ga [new_Schedule best_items, new_Schedule worst_items,
                     new_Schedule worst_items, new_Schedule worst_items,
                     new_Schedule worst_items], sconst 0)"
proof -
  have "population_loop (tiny_ga []) 5 best_tape
      = Inr ([new_Schedule best_items, new_Schedule worst_items,
                     new_Schedule worst_items, new_Schedule worst_items,
                     new_Schedule worst_items], sconst 0)"
    unfolding best_tape_def five
    by (simp add: draw_best_items draw_worst_items del: shift.simps shift_simps)
  then show ?thesis
    by (simp add: GeneticAlgorithm_init_def initialize_population_def tiny_ga_def)
qed

lemma settled_zero: "settled zero_items 0 (tiny_ga (replicate 5 (new_Schedule zero_items)))"
  by (simp add: settled_def fitness_zero_items new_Schedule_def tiny_acts_def)

lemma assess_first:
  "assess_generation 0 thr
     (tiny_ga [new_Schedule best_items, new_Schedule worst_items, new_Schedule worst_items,
               new_Schedule worst_items, new_Schedule worst_items]) [] []
   = Inr (False, tiny_ga first_generation, [- (132/25)], [4/5])"
  by (simp add: assess_generation_def get_fitness_def new_Schedule_def fitness_best_items
      fitness_worst_items py_max_def convergence_check_def first_generation_def scored_def)

lemma sample_all_zero:
  "sample_pool [a, b, c, d, e] (Suc (Suc (Suc (Suc (Suc 0))))) (sconst 0)
     = ([a, e, d, c, b], sconst 0)"
  by (simp add: Let_def)

lemma get_fitness_scored [simp]: "get_fitness (scored its f) = Inr (f, scored its f)"
  by (simp add: get_fitness_def scored_def)

lemma select_first:
  "select_parent first_generation (sconst 0) = Inr (scored best_items (4/5), sconst 0)"
proof -
  have rs: "random_sample first_generation 5 (sconst 0)
      = Inr ([scored best_items (4/5), scored worst_items (- (34/5)),
              scored worst_items (- (34/5)), scored worst_items (- (34/5)),
              scored worst_items (- (34/5))], sconst 0)"
    unfolding random_sample_def first_generation_def
    by (simp add: sample_all_zero [unfolded five [symmetric]])
  show ?thesis
    unfolding select_parent_def Let_def rs
    by (simp add: max_by_fitness_def)
qed

lemma child_first:
  "make_child (tiny_ga first_generation) (sconst 0) = Inr (new_Schedule best_items, sconst 0)"
proof -
  have cx: "crossover (tiny_ga first_generation) (scored best_items (4/5))
      (scored best_items (4/5)) (sconst 0) = Inr (new_Schedule best_items, sconst 0)"
    by (simp add: crossover_def random_randint_def scored_def tiny_acts_def)
  have mu: "mutate (tiny_ga first_generation) (new_Schedule best_items) (sconst 0)
      = Inr (new_Schedule best_items, sconst 0)"
    by (simp add: mutate_def new_Schedule_def best_items_def mutate_item_def random_random_def)
  show ?thesis
    by (simp add: make_child_def select_first cx mu)
qed

lemma breed_first:
  "breed (tiny_ga first_generation) [] (sconst 0)
     = Inr (replicate 5 (new_Schedule best_items), sconst 0)"
proof -
  have step: "int (length newp) < 5 \<Longrightarrow>
      breed (tiny_ga first_generation) newp (sconst 0)
        = breed (tiny_ga first_generation) (newp @ [new_Schedule best_items]) (sconst 0)" for newp
    by (subst breed.simps) (simp add: child_first)
  have stop: "length newp = 5 \<Longrightarrow>
      breed (tiny_ga first_generation) newp (sconst 0) = Inr (newp, sconst 0)" for newp
    by (subst breed.simps) simp
  show ?thesis
    by (simp add: step stop five)
qed

lemma settled_best: "settled best_items (4/5) (tiny_ga (replicate 5 (new_Schedule best_items)))"
  by (simp add: settled_def fitness_best_items new_Schedule_def tiny_acts_def)

section \<open>The claims\<close>

text \<open>C1. For every schedule whose items carry activities of the dataset returned by
  \<open>create_actual_data\<close>, rule 6 (paired sections) and rule 7 (consecutive slots) leave
  the running fitness of every item unchanged, so the item's score is that of rules
  1 to 5 alone and \<open>calculate_fitness\<close> is the sum of those scores: the two rules test
  the activity name against \<open>SLA 101\<close> and \<open>SLA 191\<close>, and no dataset activity has either
  name (they are \<open>SLA100\<close>, \<open>SLA191\<close>, \<open>SLA201\<close>, ...).\<close>

theorem linked_rules_inert_on_dataset:
  assumes "\<forall>item \<in> set its. activity item \<in> set (fst create_actual_data)"
  shows "(\<forall>item \<in> set its.
           (\<forall>fitness. paired_section its item fitness = fitness
                     \<and> consecutive_slots its item fitness = fitness)
           \<and> item_fitness (fst (build_tables its)) (snd (build_tables its)) its item =
               Inr (total_load (load_of its (facilitator item)) item
                     (slot_load (slot_of its item) item
                       (facilitator_preference item
                         (room_size_check item
                           (room_conflicts (slot_of its item) item 0))))))
       \<and> calculate_fitness its =
           Inr (sum_list (map (\<lambda>item.
                  total_load (load_of its (facilitator item)) item
                    (slot_load (slot_of its item) item
                      (facilitator_preference item
                        (room_size_check item
                          (room_conflicts (slot_of its item) item 0))))) its))"
proof -
  let ?F = "\<lambda>item. total_load (load_of its (facilitator item)) item
                    (slot_load (slot_of its item) item
                      (facilitator_preference item
                        (room_size_check item
                          (room_conflicts (slot_of its item) item 0))))"
  have each: "(\<forall>fitness. paired_section its item fitness = fitness
                     \<and> consecutive_slots its item fitness = fitness)
           \<and> item_fitness (fst (build_tables its)) (snd (build_tables its)) its item
               = Inr (?F item)"
    if mem: "item \<in> set its" for item
  proof -
    from mem assms have "activity item \<in> set data_activities"
      by (simp add: create_actual_data_def)
    then have nm: "act_name (activity item) \<notin> set [''SLA 101'', ''SLA 191'']"
      by (rule data_activity_names)
    have inert: "paired_section its item fitness = fitness
        \<and> consecutive_slots its item fitness = fitness" for fitness
      using nm by (simp add: paired_section_def consecutive_slots_def)
    show ?thesis
      using inert by (simp add: item_fitness_tables [OF mem])
  qed
  have "calculate_fitness its = Inr (0 + sum_list (map ?F its))"
    unfolding calculate_fitness_def
    by (rule score_loop_sum) (simp add: each)
  then show ?thesis
    using each by simp
qed

theorem linked_rules_inert_witness:
  "paired_section [sla191 ''A'' 10, sla191 ''B'' 10] (sla191 ''A'' 10) 0 = 0
   \<and> consecutive_slots [sla191 ''A'' 10, sla191 ''B'' 10] (sla191 ''B'' 10) 0 = 0"
proof -
  have h: "\<forall>item \<in> set [sla191 ''A'' 10, sla191 ''B'' 10].
             activity item \<in> set (fst create_actual_data)"
    by (simp add: sla191_def create_actual_data_def data_activities_def)
  show ?thesis
    using linked_rules_inert_on_dataset [OF h] by simp
qed








text \<open>C3 (as amended). Constructing a \<open>GeneticAlgorithm\<close> fails exactly when the population
  size is positive, the activity list is not empty, and the room, time-slot or facilitator
  list is empty; the error is then the \<open>IndexError\<close> of \<open>random.choice\<close>. The constructor
  checks nothing itself: an empty activity list, a population size that is not positive
  or is below the tournament size 5, and a mutation rate outside \<open>[0,1]\<close> are accepted.\<close>

theorem construction_fails_iff:
  "((\<exists>e. GeneticAlgorithm_init acts rms slots facs psize mrate g = Inl e) \<longleftrightarrow>
      (0 < psize \<and> acts \<noteq> [] \<and> (rms = [] \<or> slots = [] \<or> facs = [])))
   \<and> (GeneticAlgorithm_init acts rms slots facs psize mrate g = Inl IndexError \<longleftrightarrow>
      (\<exists>e. GeneticAlgorithm_init acts rms slots facs psize mrate g = Inl e))"
  by (rule GeneticAlgorithm_init_fails)

theorem construction_fails_witness:
  "GeneticAlgorithm_init (map activity demo_items1) [] [mk_time_slot 10 0] [''Glen'']
      500 (1/100) (sconst 0) = Inl IndexError"
  using construction_fails_iff [of "map activity demo_items1" "[]" "[mk_time_slot 10 0]"
      "[''Glen'']" 500 "1/100" "sconst 0"]
  by (simp add: demo_items1_def)

text \<open>The claim as stated fails: with every list empty, a mutation rate of 2 and a
  population size of 3, below the tournament size, the constructor returns an engine;
  so it does with a population size of 0 or -1.\<close>

theorem construction_accepts_bad_configuration:
  "GeneticAlgorithm_init [] [] [] [] 3 2 (sconst 0) =
     Inr (\<lparr>activities = [], rooms = [], time_slots = [], facilitators = [],
           population_size = 3, mutation_rate = 2,
           population = [new_Schedule [], new_Schedule [], new_Schedule []]\<rparr>, sconst 0)
   \<and> GeneticAlgorithm_init [] [] [] [] 0 2 (sconst 0) =
     Inr (\<lparr>activities = [], rooms = [], time_slots = [], facilitators = [],
           population_size = 0, mutation_rate = 2, population = []\<rparr>, sconst 0)
   \<and> GeneticAlgorithm_init [] [] [] [] (- 1) 2 (sconst 0) =
     Inr (\<lparr>activities = [], rooms = [], time_slots = [], facilitators = [],
           population_size = - 1, mutation_rate = 2, population = []\<rparr>, sconst 0)"
  by (simp add: GeneticAlgorithm_init_def initialize_population_def numeral_3_eq_3)

text \<open>C8. For two parents whose item lists have the length \<open>K \<ge> 2\<close> of the activity list,
  \<open>crossover\<close> succeeds: it draws one cut point \<open>C\<close> in \<open>[1, K-1]\<close> and returns a new
  schedule of length \<open>K\<close> whose first \<open>C\<close> items are parent1's first \<open>C\<close> items and whose
  other items are parent2's from position \<open>C\<close> on. Every cut point of the range is drawn
  for some outcome of the generator, and the cut points correspond one to one to the
  \<open>K-1\<close> residues of the raw draw: the cut is uniform when the library's draw is.\<close>

theorem crossover_single_point:
  assumes "length (items parent1) = length (activities ga)"
    and "length (items parent2) = length (activities ga)"
    and "2 \<le> length (activities ga)"
  shows "(\<exists>C child.
           crossover ga parent1 parent2 g = Inr (child, stl g)
           \<and> C = 1 + shd g mod (length (activities ga) - 1)
           \<and> 1 \<le> C \<and> C \<le> length (activities ga) - 1
           \<and> length (items child) = length (activities ga)
           \<and> take C (items child) = take C (items parent1)
           \<and> drop C (items child) = drop C (items parent2)
           \<and> fitness_cache child = None)
       \<and> (\<forall>c. 1 \<le> c \<and> c \<le> length (activities ga) - 1 \<longrightarrow>
             crossover ga parent1 parent2 ((c - 1) ## g)
               = Inr (new_Schedule (take c (items parent1) @ drop c (items parent2)), g))
       \<and> bij_betw (\<lambda>r. 1 + r mod (length (activities ga) - 1))
            {..<length (activities ga) - 1} {1..length (activities ga) - 1}"
  using crossover_cut [OF assms] crossover_every_cut [OF assms(3)] cut_of_draw_bij [OF assms(3)]
  by blast

theorem crossover_single_point_witness:
  "crossover (demo_ga 0) (new_Schedule demo_items1) (new_Schedule demo_items2) (1 ## sconst 0)
     = Inr (new_Schedule [sla191 ''A'' 10, sla191 ''B'' 10,
                          double_booked\<lparr>facilitator := ''Banks''\<rparr>], sconst 0)"
proof -
  have h: "length (items (new_Schedule demo_items1)) = length (activities (demo_ga 0))"
    "length (items (new_Schedule demo_items2)) = length (activities (demo_ga 0))"
    "2 \<le> length (activities (demo_ga 0))"
    by (simp_all add: demo_ga_def demo_items1_def demo_items2_def new_Schedule_def)
  have "\<forall>c. 1 \<le> c \<and> c \<le> length (activities (demo_ga 0)) - 1 \<longrightarrow>
          crossover (demo_ga 0) (new_Schedule demo_items1) (new_Schedule demo_items2)
              ((c - 1) ## sconst 0)
            = Inr (new_Schedule (take c (items (new_Schedule demo_items1))
                                   @ drop c (items (new_Schedule demo_items2))), sconst 0)"
    using crossover_single_point [OF h, of "sconst 0"] by blast
  from this [rule_format, of 2] show ?thesis
    by (simp add: demo_ga_def demo_items1_def demo_items2_def new_Schedule_def)
qed

text \<open>C7. Every schedule that \<open>initialize_population\<close> (through the constructor),
  \<open>crossover\<close> or \<open>mutate\<close> returns holds exactly one item per activity of the canonical
  list, in the order of that list; \<open>crossover\<close> and \<open>mutate\<close> are given schedules that do,
  as every schedule of a population is. Hence the population after \<open>evolve\<close> and the
  schedule it returns keep the invariant.\<close>

theorem schedules_follow_activity_list:
  "(GeneticAlgorithm_init acts rms slots facs psize mrate g0 = Inr (ga0, g0') \<longrightarrow>
      activities ga0 = acts \<and> (\<forall>s \<in> set (population ga0). follows_activities acts s))
   \<and> (crossover ga1 parent1 parent2 g1 = Inr (child, g1') \<longrightarrow>
        follows_activities (activities ga1) parent1 \<longrightarrow>
        follows_activities (activities ga1) parent2 \<longrightarrow>
        follows_activities (activities ga1) child)
   \<and> (mutate ga2 schedule g2 = Inr (mutated, g2') \<longrightarrow>
        follows_activities (activities ga2) schedule \<longrightarrow>
        follows_activities (activities ga2) mutated)
   \<and> (evolve ga3 generations thr g3 = Inr (best, ga3', g3') \<longrightarrow>
        (\<forall>s \<in> set (population ga3). follows_activities (activities ga3) s) \<longrightarrow>
        follows_activities (activities ga3) best
        \<and> (\<forall>s \<in> set (population ga3'). follows_activities (activities ga3) s))"
proof -
  have init: "activities ga0 = acts \<and> (\<forall>s \<in> set (population ga0). follows_activities acts s)"
    if "GeneticAlgorithm_init acts rms slots facs psize mrate g0 = Inr (ga0, g0')"
  proof -
    let ?self = "\<lparr>activities = acts, rooms = rms, time_slots = slots, facilitators = facs,
                  population_size = psize, mutation_rate = mrate, population = []\<rparr>"
    from that obtain pop where
      pop: "initialize_population ?self g0 = Inr (pop, g0')"
      and ga0: "ga0 = ?self\<lparr>population := pop\<rparr>"
      by (auto simp: GeneticAlgorithm_init_def Let_def split: sum.splits prod.splits)
    from pop have "\<forall>s \<in> set pop. map activity (items s) = acts"
      using population_loop_Inr [of ?self "nat psize" g0 pop g0']
      by (simp add: initialize_population_def)
    then show ?thesis
      by (simp add: ga0 follows_activities_def)
  qed
  have cross: "follows_activities (activities ga1) child"
    if "crossover ga1 parent1 parent2 g1 = Inr (child, g1')"
      "follows_activities (activities ga1) parent1"
      "follows_activities (activities ga1) parent2"
    using crossover_preserves_activities [OF that(1)] that(2,3)
    by (simp add: follows_activities_def)
  have mut: "follows_activities (activities ga2) mutated"
    if "mutate ga2 schedule g2 = Inr (mutated, g2')"
      "follows_activities (activities ga2) schedule"
    using mutate_preserves_activities [OF that(1)] that(2)
    by (simp add: follows_activities_def)
  have evo: "follows_activities (activities ga3) best
        \<and> (\<forall>s \<in> set (population ga3'). follows_activities (activities ga3) s)"
    if "evolve ga3 generations thr g3 = Inr (best, ga3', g3')"
      "\<forall>s \<in> set (population ga3). follows_activities (activities ga3) s"
    using evolve_follows [OF that] .
  show ?thesis
    using init cross mut evo by blast
qed

theorem schedules_follow_activity_list_witness:
  "follows_activities (activities (demo_ga 0))
     (new_Schedule [sla191 ''A'' 10, sla191 ''B'' 12, double_booked\<lparr>facilitator := ''Banks''\<rparr>])"
proof -
  have x: "crossover (demo_ga 0) (new_Schedule demo_items1) (new_Schedule demo_items2) (sconst 0)
      = Inr (new_Schedule [sla191 ''A'' 10, sla191 ''B'' 12,
                           double_booked\<lparr>facilitator := ''Banks''\<rparr>], sconst 0)"
    by (simp add: crossover_def random_randint_def demo_ga_def demo_items1_def demo_items2_def
        new_Schedule_def)
  have p1: "follows_activities (activities (demo_ga 0)) (new_Schedule demo_items1)"
    by (simp add: follows_activities_def demo_ga_def new_Schedule_def)
  have p2: "follows_activities (activities (demo_ga 0)) (new_Schedule demo_items2)"
    by (simp add: follows_activities_def demo_ga_def demo_items1_def demo_items2_def
        new_Schedule_def sla191_def)
  show ?thesis
    using schedules_follow_activity_list [of _ _ _ _ _ _ _ _ _ "demo_ga 0"
        "new_Schedule demo_items1" "new_Schedule demo_items2" "sconst 0" _ "sconst 0"] x p1 p2
    by simp
qed

text \<open>C2 (as amended). In every run of \<open>evolve\<close>, when the convergence check of a generation
  with index at least 100 divides by a historical average fitness that is exactly 0 (the
  entry \<open>avg_fitness_history[-100]\<close> it reads), the check raises \<open>ZeroDivisionError\<close> and
  the error ends \<open>evolve\<close>: the generation is not skipped. No non-finite value arises,
  because Python's float division raises instead.\<close>

theorem convergence_check_divides_by_zero:
  assumes "100 \<le> gen" and "gen < generations"
    and "fitnesses_of (population ga) = Inr (fitnesses, pop)" and "fitnesses \<noteq> []"
    and "py_index (ah @ [sum_list fitnesses / of_nat (length fitnesses)]) (- 100) = Inr 0"
  shows "convergence_check gen (ah @ [sum_list fitnesses / of_nat (length fitnesses)]) thr
           = Inl ZeroDivisionError
       \<and> assess_generation gen thr ga ah bh = Inl ZeroDivisionError
       \<and> evolve_loop thr generations gen ga ah bh g = Inl ZeroDivisionError"
proof -
  let ?h = "ah @ [sum_list fitnesses / of_nat (length fitnesses)]"
  have now: "py_index ?h (- 1) = Inr (last ?h)"
    by (rule py_index_last) simp
  have cc: "convergence_check gen ?h thr = Inl ZeroDivisionError"
    using assms(1) by (simp add: convergence_check_def improvement_of_def now assms(5))
  obtain b where mx: "py_max fitnesses = Inr b"
    using assms(4) by (cases fitnesses) (auto simp: py_max_def)
  have as: "assess_generation gen thr ga ah bh = Inl ZeroDivisionError"
    using assms(4) by (simp add: assess_generation_def assms(3) mx Let_def cc)
  have "evolve_loop thr generations gen ga ah bh g = Inl ZeroDivisionError"
    using assms(2) by (subst evolve_loop.simps) (simp add: as)
  with cc as show ?thesis by simp
qed

theorem convergence_check_divides_by_zero_witness:
  "evolve_loop (1/100) 500 100 (tiny_ga (replicate 5 (new_Schedule zero_items)))
      (replicate 100 0) (replicate 100 0) (sconst 0) = Inl ZeroDivisionError"
proof -
  have f: "fitnesses_of (population (tiny_ga (replicate 5 (new_Schedule zero_items))))
      = Inr (replicate 5 0, map (\<lambda>s. s\<lparr>fitness_cache := Some 0\<rparr>)
                                (replicate 5 (new_Schedule zero_items)))"
    using fitnesses_of_settled [of "replicate 5 (new_Schedule zero_items)" zero_items 0]
    by (simp add: fitness_zero_items new_Schedule_def)
  have z: "py_index (replicate 100 0 @ [sum_list (replicate 5 0) / of_nat (length (replicate 5 (0::rat)))])
      (- 100) = Inr (0::rat)"
    by (simp add: py_index_def nth_append)
  show ?thesis
    using convergence_check_divides_by_zero [OF _ _ f _ z, of 100 500 "1/100" "replicate 100 0"
        "sconst 0"]
    by simp
qed

text \<open>The claim as stated fails on a complete run: the engine below is built by the
  constructor, every schedule of its population scores exactly 0 (in floating point as
  well: each item scores \<open>-0.5 + 0.5\<close> and then \<open>+0.2\<close> or \<open>-0.2\<close>), nothing mutates, and
  \<open>evolve\<close> ends at generation 100 with \<open>ZeroDivisionError\<close>.\<close>

theorem zero_average_run:
  "GeneticAlgorithm_init tiny_acts tiny_rooms tiny_slots [''Shaw''] 5 0 zero_tape
     = Inr (tiny_ga (replicate 5 (new_Schedule zero_items)), sconst 0)
   \<and> evolve (tiny_ga (replicate 5 (new_Schedule zero_items))) 500 (1/100) (sconst 0)
       = Inl ZeroDivisionError"
proof -
  have "evolve_loop (1/100) (nat 500) 0 (tiny_ga (replicate 5 (new_Schedule zero_items)))
          [] [] (sconst 0) = Inl ZeroDivisionError"
    by (rule evolve_loop_settled_zero [OF settled_zero]) simp_all
  then show ?thesis
    using init_zero by (simp add: evolve_def)
qed

text \<open>C4. The claim that the improvement is measured against the average recorded at
  generation index \<open>gen - 100\<close> fails on the code: \<open>avg_fitness_history[-100]\<close> of a history
  of \<open>gen + 1\<close> entries is the entry of index \<open>gen - 99\<close> (\<open>convergence_check_eq\<close>). In
  the run below the averages are \<open>-5.28, 0.8, 0.8, ...\<close>: the loop stops at generation 100
  with 101 entries, the improvement against generation 1 being 0, while against
  generation 0 it is above 1 and would not stop the loop there.\<close>

theorem convergence_reads_99_generations_back:
  "GeneticAlgorithm_init tiny_acts tiny_rooms tiny_slots [''Shaw''] 5 0 best_tape
     = Inr (tiny_ga [new_Schedule best_items, new_Schedule worst_items,
                     new_Schedule worst_items, new_Schedule worst_items,
                     new_Schedule worst_items], sconst 0)
   \<and> (\<exists>ga' bh' g'.
        evolve_loop (1/100) 500 0
          (tiny_ga [new_Schedule best_items, new_Schedule worst_items,
                    new_Schedule worst_items, new_Schedule worst_items,
                    new_Schedule worst_items]) [] [] (sconst 0)
        = Inr (ga', (- (132/25)) # replicate 100 (4/5), bh', g'))
   \<and> \<not> ((4/5 - (- (132/25))) / \<bar>- (132/25)\<bar> < (1/100 :: rat))
   \<and> ((4/5 - 4/5) / \<bar>4/5\<bar> < (1/100 :: rat))"
proof -
  let ?ga0 = "tiny_ga [new_Schedule best_items, new_Schedule worst_items,
                    new_Schedule worst_items, new_Schedule worst_items,
                    new_Schedule worst_items]"
  have step: "evolve_loop (1/100) 500 0 ?ga0 [] [] (sconst 0)
      = evolve_loop (1/100) 500 (Suc 0) (tiny_ga (replicate 5 (new_Schedule best_items)))
          [- (132/25)] [4/5] (sconst 0)"
    by (subst evolve_loop.simps) (simp add: assess_first breed_first)
  have "\<exists>ga' bh' g'.
      evolve_loop (1/100) 500 (Suc 0) (tiny_ga (replicate 5 (new_Schedule best_items)))
          [- (132/25)] [4/5] (sconst 0)
        = Inr (ga', (- (132/25)) # replicate 100 (4/5), bh', g')"
    by (rule evolve_loop_settled_stop [OF settled_best]) simp_all
  then show ?thesis
    using init_best unfolding step by simp
qed

text \<open>C9 (as amended). \<open>mutate\<close> works on a deep copy: every object that existed before the
  call, the input schedule's items among them, is unchanged, and the returned items are
  new objects. With mutation rate 0 the returned items equal the input's. For an input
  whose items are distinct objects, the call agrees with \<open>mutate\<close> on item values, each
  returned item has the activity of the input item at its position and differs from it in
  at most one of room, time slot and facilitator, and with mutation rate 1 every item has
  exactly one facet drawn afresh from its domain, a draw that may return the value the
  item already had.\<close>

theorem mutate_on_deep_copy:
  assumes "mutate_heap ga item_refs h g = Inr (new_items, h', g')"
    and "\<forall>a \<in> set item_refs. a < next_addr h"
  shows "(\<forall>a < next_addr h. cell h' a = cell h a)
       \<and> (\<forall>a \<in> set new_items. next_addr h \<le> a)
       \<and> length new_items = length item_refs
       \<and> (mutation_rate ga \<le> 0 \<longrightarrow> map (cell h') new_items = map (cell h) item_refs)
       \<and> (distinct item_refs \<longrightarrow>
            mutate ga (new_Schedule (map (cell h) item_refs)) g
              = Inr (new_Schedule (map (cell h') new_items), g')
            \<and> (\<forall>i < length item_refs.
                  activity (cell h' (new_items ! i)) = activity (cell h (item_refs ! i))
                  \<and> facets_changed (cell h (item_refs ! i)) (cell h' (new_items ! i)) \<le> 1)
            \<and> (1 \<le> mutation_rate ga \<longrightarrow>
                  (\<forall>i < length item_refs.
                     redrawn ga (cell h (item_refs ! i)) (cell h' (new_items ! i)))))"
proof -
  from assms(1) obtain memo' h1 where
    dc: "deepcopy_items item_refs Map.empty h = (new_items, memo', h1)"
    and mr: "mutate_refs ga new_items h1 g = Inr (h', g')"
    by (rule mutate_heap_parts)
  have ok: "memo_ok (next_addr h) Map.empty h"
    by (simp add: memo_ok_def)
  from deepcopy_copies [OF dc ok assms(2)] have
    copy: "map (cell h1) new_items = map (cell h) item_refs"
    and fresh: "\<forall>a' \<in> set new_items. next_addr h \<le> a'"
    and len: "length new_items = length item_refs"
    by auto
  have fr1: "\<forall>a < next_addr h. cell h1 a = cell h a"
    using deepcopy_frame [OF dc] by simp
  have fr2: "\<forall>a. a \<notin> set new_items \<longrightarrow> cell h' a = cell h1 a"
    using mutate_refs_frame [OF mr] by simp
  have frame: "\<forall>a < next_addr h. cell h' a = cell h a"
  proof (intro allI impI)
    fix a assume a: "a < next_addr h"
    then have "a \<notin> set new_items" using fresh by auto
    then show "cell h' a = cell h a" using fr1 fr2 a by simp
  qed
  have rate0: "map (cell h') new_items = map (cell h) item_refs" if r0: "mutation_rate ga \<le> 0"
  proof -
    obtain g2 where "mutate_refs ga new_items h1 g = Inr (h1, g2)"
      using mutate_refs_rate_0 [OF r0] by blast
    with mr have "h' = h1" by simp
    then show ?thesis using copy by simp
  qed
  have dist: "mutate ga (new_Schedule (map (cell h) item_refs)) g
              = Inr (new_Schedule (map (cell h') new_items), g')
            \<and> (\<forall>i < length item_refs.
                  activity (cell h' (new_items ! i)) = activity (cell h (item_refs ! i))
                  \<and> facets_changed (cell h (item_refs ! i)) (cell h' (new_items ! i)) \<le> 1)
            \<and> (1 \<le> mutation_rate ga \<longrightarrow>
                  (\<forall>i < length item_refs.
                     redrawn ga (cell h (item_refs ! i)) (cell h' (new_items ! i))))"
    if d: "distinct item_refs"
  proof -
    have "new_items = [next_addr h ..< next_addr h + length item_refs]"
      using deepcopy_distinct [OF dc d] by simp
    then have dn: "distinct new_items" by simp
    have ml: "mutate_loop ga (map (cell h) item_refs) g = Inr (map (cell h') new_items, g')"
      using mutate_refs_distinct [OF mr dn] unfolding copy .
    have m: "mutate ga (new_Schedule (map (cell h) item_refs)) g
              = Inr (new_Schedule (map (cell h') new_items), g')"
      by (simp add: mutate_def new_Schedule_def ml)
    have p1: "list_all2 (\<lambda>old new. activity new = activity old \<and> facets_changed old new \<le> 1)
        (map (cell h) item_refs) (map (cell h') new_items)"
      by (rule mutate_loop_pointwise [OF ml]) (rule mutate_item_facets)
    have p2: "list_all2 (redrawn ga) (map (cell h) item_refs) (map (cell h') new_items)"
      if r1: "1 \<le> mutation_rate ga"
      by (rule mutate_loop_pointwise [OF ml]) (rule mutate_item_rate_1 [OF r1])
    have n1: "\<forall>i < length item_refs.
                  activity (cell h' (new_items ! i)) = activity (cell h (item_refs ! i))
                  \<and> facets_changed (cell h (item_refs ! i)) (cell h' (new_items ! i)) \<le> 1"
      using list_all2_nthD [OF p1] len by simp
    have n2: "\<forall>i < length item_refs.
                 redrawn ga (cell h (item_refs ! i)) (cell h' (new_items ! i))"
      if r1: "1 \<le> mutation_rate ga"
      using list_all2_nthD [OF p2 [OF r1]] len by simp
    show ?thesis using m n1 n2 by blast
  qed
  show ?thesis
    using frame fresh len rate0 dist by blast
qed

theorem mutate_on_deep_copy_witness:
  "(case mutate_heap (demo_ga 1) [0, 1] two_objects ([0, 0, 1, 0, 2, 1] @- sconst 0) of
      Inl e \<Rightarrow> False
    | Inr (new_items, h', g') \<Rightarrow>
        new_items = [2, 3]
        \<and> cell h' 0 = sla191 ''A'' 10 \<and> cell h' 1 = double_booked
        \<and> cell h' 2 = (sla191 ''A'' 10)\<lparr>room := mk_room ''Loft 206'' 75 ''Loft''\<rparr>
        \<and> cell h' 3 = double_booked\<lparr>facilitator := ''Banks''\<rparr>
        \<and> facets_changed (cell two_objects 0) (cell h' 2) \<le> 1)"
proof -
  obtain new_items h' g' where
    run: "mutate_heap (demo_ga 1) [0, 1] two_objects ([0, 0, 1, 0, 2, 1] @- sconst 0)
            = Inr (new_items, h', g')"
    and res: "new_items = [2, 3]"
      "cell h' 2 = (sla191 ''A'' 10)\<lparr>room := mk_room ''Loft 206'' 75 ''Loft''\<rparr>"
      "cell h' 3 = double_booked\<lparr>facilitator := ''Banks''\<rparr>"
    by (simp add: mutate_heap_def two_objects_def demo_ga_def mutate_item_def
        random_random_def random_choice_def Let_def)
  have al: "\<forall>a \<in> set [0, 1]. a < next_addr two_objects"
    by (simp add: two_objects_def)
  from mutate_on_deep_copy [OF run al]
  have "\<forall>a < next_addr two_objects. cell h' a = cell two_objects a"
    and "distinct [0::nat, 1] \<longrightarrow> (\<forall>i < length [0::nat, 1].
           facets_changed (cell two_objects ([0, 1] ! i)) (cell h' (new_items ! i)) \<le> 1)"
    by blast+
  then have "cell h' 0 = cell two_objects 0" "cell h' 1 = cell two_objects 1"
    "facets_changed (cell two_objects 0) (cell h' 2) \<le> 1"
    using res(1) by (auto simp: two_objects_def)
  then show ?thesis
    using run res by (simp add: two_objects_def)
qed

text \<open>The claim as stated fails twice. With mutation rate 1 a redrawn room can be the room
  the item already has, and then no facet of the item is altered. And when the input lists
  one item object twice, the deep copy lists one copy twice, the loop visits it twice, and
  two facets of that one gene change in a single call.\<close>

theorem mutate_redraws_and_aliases:
  "(case mutate_heap (demo_ga 1) [1] two_objects (sconst 0) of
      Inl e \<Rightarrow> False
    | Inr (new_items, h', g') \<Rightarrow>
        new_items = [2] \<and> cell h' 2 = cell two_objects 1
        \<and> facets_changed (cell two_objects 1) (cell h' 2) = 0)
   \<and> (case mutate_heap (demo_ga 1) [0, 0] two_objects ([0, 0, 1, 0, 1, 1] @- sconst 0) of
      Inl e \<Rightarrow> False
    | Inr (new_items, h', g') \<Rightarrow>
        new_items = [2, 2]
        \<and> cell h' 2 = (sla191 ''A'' 10)\<lparr>room := mk_room ''Loft 206'' 75 ''Loft'',
                                         time_slot := mk_time_slot 11 0\<rparr>
        \<and> facets_changed (cell two_objects 0) (cell h' 2) = 2)"
  by (simp add: mutate_heap_def two_objects_def demo_ga_def mutate_item_def
      random_random_def random_choice_def Let_def facets_changed_def double_booked_def
      sla191_def mk_room_def mk_time_slot_def)

end
